theory Spec2Isabelle
  imports Complex_Main "HOL-Library.Log_Nat"
begin

section \<open>Servo2040 multi-servo controller\<close>

text \<open>
  The repository holds two builds of one controller: \<^verbatim>\<open>servo2040_controller.cpp\<close>
  (serial commands only) and a second source file that adds the LED bar, the user
  button and the command-LED timer. The second is the first plus extra statements,
  so one model covers both: a \<open>build\<close> value selects whether the LED and button
  statements are present.
\<close>

datatype build = Plain | WithLeds

subsection \<open>Constants\<close>

definition NUM_SERVOS :: nat where "NUM_SERVOS = 18"
definition MIN_ANGLE :: int where "MIN_ANGLE = - 140"
definition MAX_ANGLE :: int where "MAX_ANGLE = 140"

definition READY_LED :: nat where "READY_LED = 0"
definition COMMAND_LED :: nat where "COMMAND_LED = 1"

text \<open>\<^verbatim>\<open>servo2040::NUM_LEDS\<close> comes from the board header; the source's comment gives 6.\<close>
definition NUM_LEDS :: nat where "NUM_LEDS = 6"

text \<open>The SDK's return value of \<^verbatim>\<open>getchar_timeout_us\<close> when no byte is waiting.\<close>
definition PICO_ERROR_TIMEOUT :: int where "PICO_ERROR_TIMEOUT = - 1"

subsection \<open>Single-precision arithmetic\<close>

text \<open>
  The source computes pulse widths in \<^verbatim>\<open>float\<close>. A finite binary32 value is a
  rational, and every operation returns the exact result rounded to the nearest
  binary32 value, ties to even: 24 significant bits, least exponent \<open>-126\<close>
  (below it the spacing stays \<open>2^-149\<close>). No magnitude in this program comes
  near the largest finite value (a 32-bit integer times 500 is below \<open>2^41\<close>), so
  overflow to infinity is left out.
\<close>

definition pow2 :: "int \<Rightarrow> rat" where
  "pow2 e = (if 0 \<le> e then 2 ^ nat e else 1 / 2 ^ nat (- e))"

text \<open>The binary exponent of a positive rational: \<open>2^e \<le> x < 2^(e+1)\<close>.\<close>
definition ilog2 :: "rat \<Rightarrow> int" where
  "ilog2 x = (let (p, q) = quotient_of x; d = bitlen p - bitlen q
              in if pow2 d \<le> x then d else d - 1)"

definition round_even :: "rat \<Rightarrow> int" where
  "round_even r = (let f = \<lfloor>r\<rfloor>; d = r - of_int f
                   in if d < 1 / 2 then f
                      else if 1 / 2 < d then f + 1
                      else if even f then f else f + 1)"

definition fl32 :: "rat \<Rightarrow> rat" where
  "fl32 x = (if x = 0 then 0
             else let e = max (ilog2 \<bar>x\<bar>) (- 126); u = pow2 (e - 23)
                  in sgn x * of_int (round_even (\<bar>x\<bar> / u)) * u)"

text \<open>
  \<^verbatim>\<open>float pulse_us = 1500.0f + (position * 500.0f / 140.0f);\<close>
  The integer is converted to \<^verbatim>\<open>float\<close>, multiplied, divided, and added, each step
  rounded.
\<close>
definition pulse_us :: "int \<Rightarrow> rat" where
  "pulse_us position = fl32 (1500 + fl32 (fl32 (fl32 (of_int position) * 500) / 140))"

subsection \<open>State and observable effects\<close>

text \<open>The text of each \<^verbatim>\<open>printf\<close>, with its integer arguments.\<close>
datatype diag =
    Initialized nat
  | RangeMsg int int
  | CalibrationMsg
  | LedInfoMsg
  | ReadyMsg
  | Setting int int
  | Moved int int
  | Invalid int int
  | ButtonPressed

text \<open>Calls into the board libraries, in program order.\<close>
datatype event =
    StdioInit
  | ServoNew nat
  | ServoInit nat
  | CalRef nat
  | CalFirst nat rat
  | CalLast nat rat
  | CalQuery nat
  | ServoEnable nat
  | ServoValue nat
  | ServoPulse nat rat
  | LedStart
  | LedClear
  | LedRGB nat nat nat nat
  | LedHSV nat rat rat rat
  | Printf diag
  | SleepMs nat

datatype arr = Servos | CurrentPositions

text \<open>
  The globals (\<open>currentPositions\<close>), the statics of \<^verbatim>\<open>readSerialLine\<close>
  (\<open>buffer\<close>, \<open>pos\<close>), the locals of \<^verbatim>\<open>main\<close> that live across iterations, and the
  environment: \<open>rx\<close> lists what the coming calls of \<^verbatim>\<open>getchar_timeout_us(0)\<close> return
  (a byte, or \<open>PICO_ERROR_TIMEOUT\<close>; an exhausted list means timeout), \<open>button\<close> what
  the coming calls of \<^verbatim>\<open>user_sw.read()\<close> return, \<open>clock\<close> the time in microseconds.
  \<open>trace\<close> records the library calls made so far and \<open>accesses\<close> every subscript
  applied to one of the two global arrays.
\<close>
record world =
  currentPositions :: "int list"
  buffer :: "char list"
  pos :: nat
  command_led_off_time :: nat
  command_led_active :: bool
  rx :: "int list"
  button :: "bool list"
  clock :: nat
  trace :: "event list"
  accesses :: "(arr \<times> int) list"

definition emit :: "event \<Rightarrow> world \<Rightarrow> world" where
  "emit e w = w\<lparr>trace := trace w @ [e]\<rparr>"

definition subscript :: "arr \<Rightarrow> int \<Rightarrow> world \<Rightarrow> world" where
  "subscript a i w = w\<lparr>accesses := accesses w @ [(a, i)]\<rparr>"

text \<open>\<^verbatim>\<open>servos[i]->method(...)\<close>: one subscript of \<open>servos\<close>, one library call.\<close>
definition servo_call :: "int \<Rightarrow> (nat \<Rightarrow> event) \<Rightarrow> world \<Rightarrow> world" where
  "servo_call i method w = emit (method (nat i)) (subscript Servos i w)"

text \<open>\<^verbatim>\<open>currentPositions[i] = v\<close>\<close>
definition store_position :: "int \<Rightarrow> int \<Rightarrow> world \<Rightarrow> world" where
  "store_position i v w =
     (subscript CurrentPositions i w)\<lparr>currentPositions := (currentPositions w)[nat i := v]\<rparr>"

definition sleep_ms :: "nat \<Rightarrow> world \<Rightarrow> world" where
  "sleep_ms n w = (emit (SleepMs n) w)\<lparr>clock := clock w + n * 1000\<rparr>"

definition get_absolute_time :: "world \<Rightarrow> nat" where
  "get_absolute_time w = clock w"

definition make_timeout_time_ms :: "nat \<Rightarrow> world \<Rightarrow> nat" where
  "make_timeout_time_ms ms w = get_absolute_time w + ms * 1000"

definition absolute_time_diff_us :: "nat \<Rightarrow> nat \<Rightarrow> int" where
  "absolute_time_diff_us from to = int to - int from"

text \<open>The machine before \<^verbatim>\<open>main\<close> runs: zero-initialised globals and statics.\<close>
definition power_on :: "int list \<Rightarrow> bool list \<Rightarrow> nat \<Rightarrow> world" where
  "power_on bytes presses t =
     \<lparr>currentPositions = replicate NUM_SERVOS 0, buffer = replicate 256 (CHR 0x00), pos = 0,
      command_led_off_time = 0, command_led_active = False,
      rx = bytes, button = presses, clock = t, trace = [], accesses = []\<rparr>"

subsection \<open>LED helpers\<close>

fun set_rest_off :: "nat list \<Rightarrow> world \<Rightarrow> world" where
  "set_rest_off [] w = w"
| "set_rest_off (i # is) w = set_rest_off is (emit (LedRGB i 0 0 0) w)"

definition setDefaultLEDs :: "world \<Rightarrow> world" where
  "setDefaultLEDs w =
     set_rest_off [2..<NUM_LEDS]
       (emit (LedRGB COMMAND_LED 0 0 0) (emit (LedRGB READY_LED 0 64 0) (emit LedClear w)))"

definition flashCommandLED :: "world \<Rightarrow> world" where
  "flashCommandLED w = emit (LedRGB COMMAND_LED 0 0 128) w"

definition BRIGHTNESS :: rat where "BRIGHTNESS = fl32 (4 / 10)"

fun flash_all :: "nat list \<Rightarrow> world \<Rightarrow> world" where
  "flash_all [] w = w"
| "flash_all (i # is) w =
     flash_all is (emit (LedHSV i (fl32 (fl32 (of_nat i) / fl32 (of_nat NUM_LEDS))) 1 BRIGHTNESS) w)"

definition animation_pass :: "world \<Rightarrow> world" where
  "animation_pass w = sleep_ms 200 (emit LedClear (sleep_ms 200 (flash_all [0..<NUM_LEDS] w)))"

definition ledWelcomeAnimation :: "world \<Rightarrow> world" where
  "ledWelcomeAnimation w = setDefaultLEDs (animation_pass (animation_pass w))"

subsection \<open>Initialisation\<close>

text \<open>
  The body of the first loop: \<open>ServoNew\<close> is the assignment of the new object to
  \<open>servos[s]\<close>, \<open>CalRef\<close> the call \<^verbatim>\<open>servos[s]->calibration()\<close>, whose result the
  two calibration calls then use.
\<close>
definition init_servo :: "nat \<Rightarrow> world \<Rightarrow> world" where
  "init_servo s w =
     store_position (int s) 0
       (emit (CalLast s (fl32 (of_int MAX_ANGLE)))
         (emit (CalFirst s (fl32 (of_int MIN_ANGLE)))
           (servo_call (int s) CalRef
             (servo_call (int s) ServoInit
               (servo_call (int s) ServoNew w)))))"

fun init_servos :: "nat list \<Rightarrow> world \<Rightarrow> world" where
  "init_servos [] w = w"
| "init_servos (s # ss) w = init_servos ss (init_servo s w)"

fun enable_servos :: "nat list \<Rightarrow> world \<Rightarrow> world" where
  "enable_servos [] w = w"
| "enable_servos (s # ss) w = enable_servos ss (servo_call (int s) ServoEnable w)"

definition setup_messages :: "build \<Rightarrow> world \<Rightarrow> world" where
  "setup_messages b w =
     (let w1 = emit (Printf (Initialized NUM_SERVOS)) w;
          w2 = emit (Printf (RangeMsg MIN_ANGLE MAX_ANGLE)) w1;
          w3 = emit (Printf CalibrationMsg) (servo_call 0 CalQuery (servo_call 0 CalQuery w2));
          w4 = (if b = WithLeds then emit (Printf LedInfoMsg) w3 else w3)
      in emit (Printf ReadyMsg) w4)"

text \<open>The source's \<^verbatim>\<open>setup()\<close>.\<close>
definition setup_fn :: "build \<Rightarrow> world \<Rightarrow> world" where
  "setup_fn b w =
     (let w1 = emit StdioInit w;
          w2 = (if b = WithLeds then emit LedStart w1 else w1);
          w3 = init_servos [0..<NUM_SERVOS] w2;
          w4 = enable_servos [0..<NUM_SERVOS] w3;
          w5 = (if b = WithLeds then setDefaultLEDs w4 else w4)
      in setup_messages b w5)"

subsection \<open>C library string functions\<close>

text \<open>
  A C string is the bytes before the first NUL. \<^verbatim>\<open>strcpy\<close> copies exactly those.
\<close>
definition strcpy :: "string \<Rightarrow> string" where
  "strcpy s = takeWhile (\<lambda>c. c \<noteq> CHR 0x00) s"

text \<open>
  \<^verbatim>\<open>strtok(_, ";")\<close> on the text from its saved position: skip leading delimiters; if
  nothing is left there is no token; else the token runs to the next delimiter, and the
  saved position moves past that delimiter.
\<close>
definition strtok :: "string \<Rightarrow> (string \<times> string) option" where
  "strtok s =
     (let s1 = dropWhile (\<lambda>c. c = CHR '';'') s
      in if s1 = [] then None
         else Some (takeWhile (\<lambda>c. c \<noteq> CHR '';'') s1,
                    drop 1 (dropWhile (\<lambda>c. c \<noteq> CHR '';'') s1)))"

text \<open>
  \<^verbatim>\<open>strchr(token, ',')\<close> followed by \<^verbatim>\<open>*comma = '\0'\<close>: the text before the first
  comma and the text after it.
\<close>
definition strchr_split :: "string \<Rightarrow> (string \<times> string) option" where
  "strchr_split token =
     (if CHR '','' \<in> set token
      then Some (takeWhile (\<lambda>c. c \<noteq> CHR '','') token,
                 drop 1 (dropWhile (\<lambda>c. c \<noteq> CHR '','') token))
      else None)"

definition isspace :: "char \<Rightarrow> bool" where
  "isspace c = (let n = (of_char c :: nat) in n = 32 \<or> (9 \<le> n \<and> n \<le> 13))"

definition isdigit :: "char \<Rightarrow> bool" where
  "isdigit c = (let n = (of_char c :: nat) in 48 \<le> n \<and> n \<le> 57)"

fun digits_value :: "int \<Rightarrow> string \<Rightarrow> int" where
  "digits_value acc [] = acc"
| "digits_value acc (c # cs) =
     (if isdigit c then digits_value (acc * 10 + (of_char c - 48)) cs else acc)"

text \<open>
  \<^verbatim>\<open>atoi\<close> is \<^verbatim>\<open>(int) strtol(s, NULL, 10)\<close>: optional white space, an optional sign,
  then the longest run of digits; no digits gives 0. On the board \<^verbatim>\<open>long\<close> has 32 bits
  and \<^verbatim>\<open>strtol\<close> saturates at its bounds.
\<close>
definition atoi :: "string \<Rightarrow> int" where
  "atoi s =
     (let s1 = dropWhile isspace s;
          v = (case s1 of
                 [] \<Rightarrow> 0
               | c # cs \<Rightarrow>
                   if c = CHR ''-'' then - digits_value 0 cs
                   else if c = CHR ''+'' then digits_value 0 cs
                   else digits_value 0 s1)
      in max (- (2 ^ 31)) (min (2 ^ 31 - 1) v))"

subsection \<open>handleCommands\<close>

text \<open>
  The accepting branch of the loop body: the two diagnostics, each reading
  \<^verbatim>\<open>servos[channel]->value()\<close>, the pulse, and the store into \<open>currentPositions\<close>.
\<close>
definition apply_command :: "int \<Rightarrow> int \<Rightarrow> world \<Rightarrow> world" where
  "apply_command channel position w =
     (let w1 = emit (Printf (Setting channel position)) (servo_call channel ServoValue w);
          p = pulse_us position;
          w2 = servo_call channel (\<lambda>s. ServoPulse s p) w1;
          w3 = store_position channel position w2
      in emit (Printf (Moved channel position)) (servo_call channel ServoValue w3))"

text \<open>The condition of the \<^verbatim>\<open>if\<close> that validates channel and position.\<close>
definition in_range :: "int \<Rightarrow> int \<Rightarrow> bool" where
  "in_range channel position =
     (0 \<le> channel \<and> channel < int NUM_SERVOS \<and> MIN_ANGLE \<le> position \<and> position \<le> MAX_ANGLE)"

text \<open>The body of the \<^verbatim>\<open>while (token != NULL)\<close> loop, up to the next \<^verbatim>\<open>strtok\<close>.\<close>
definition handle_token :: "string \<Rightarrow> world \<Rightarrow> world" where
  "handle_token token w =
     (case strchr_split token of
        None \<Rightarrow> w
      | Some (left, right) \<Rightarrow>
          let channel = atoi left; position = atoi right
          in if in_range channel position
             then apply_command channel position w
             else emit (Printf (Invalid channel position)) w)"

function token_loop :: "(string \<times> string) option \<Rightarrow> world \<Rightarrow> world" where
  "token_loop None w = w"
| "token_loop (Some (token, rest)) w = token_loop (strtok rest) (handle_token token w)"
  by pat_completeness auto

lemma strtok_shorter: "strtok s = Some (t, r) \<Longrightarrow> length r < length s"
proof -
  assume a: "strtok s = Some (t, r)"
  define s1 where "s1 = dropWhile (\<lambda>c. c = CHR '';'') s"
  define d where "d = dropWhile (\<lambda>c. c \<noteq> CHR '';'') s1"
  from a have ne: "s1 \<noteq> []" and r: "r = drop 1 d"
    by (simp_all add: strtok_def Let_def s1_def d_def split: if_splits)
  have "length d \<le> length s1"
    unfolding d_def by (rule length_dropWhile_le)
  moreover have "length s1 \<le> length s"
    unfolding s1_def by (rule length_dropWhile_le)
  moreover have "0 < length s1" using ne by simp
  moreover have "length r = length d - 1" unfolding r by simp
  ultimately show ?thesis by linarith
qed

termination token_loop
  by (relation "measure (\<lambda>(t, w). case t of None \<Rightarrow> 0 | Some (tok, r) \<Rightarrow> Suc (length r))")
     (auto split: option.splits dest: strtok_shorter)

definition handleCommands :: "build \<Rightarrow> string \<Rightarrow> world \<Rightarrow> world" where
  "handleCommands b command w =
     (let cmd_copy = strcpy command;
          token = strtok cmd_copy;
          w1 = (if b = WithLeds then flashCommandLED w else w)
      in token_loop token w1)"

subsection \<open>readSerialLine\<close>

text \<open>
  One round of the \<^verbatim>\<open>while (true)\<close> loop for a byte \<open>c\<close> that is not the timeout value:
  the line to return, if the round returns, and the new statics.
\<close>
definition on_byte :: "int \<Rightarrow> char list \<times> nat \<Rightarrow> string option \<times> char list \<times> nat" where
  "on_byte c bp =
     (let (buf, p) = bp
      in if c = 10 \<or> c = 13 then
           (if 0 < p then (Some (buf[p := CHR 0x00]), buf[p := CHR 0x00], 0)
            else (None, buf, p))
         else if 32 \<le> c \<and> c \<le> 126 \<and> p < 255 then (None, buf[p := char_of c], p + 1)
         else (None, buf, p))"

fun read_loop :: "int list \<Rightarrow> char list \<times> nat \<Rightarrow> string option \<times> int list \<times> char list \<times> nat" where
  "read_loop [] bp = (None, [], bp)"
| "read_loop (c # cs) bp =
     (if c = PICO_ERROR_TIMEOUT then (None, cs, bp)
      else case on_byte c bp of
             (Some line, bp') \<Rightarrow> (Some line, cs, bp')
           | (None, bp') \<Rightarrow> read_loop cs bp')"

text \<open>The result is the returned pointer: \<open>None\<close> for \<^verbatim>\<open>NULL\<close>, else the buffer's content.\<close>
definition readSerialLine :: "world \<Rightarrow> string option \<times> world" where
  "readSerialLine w =
     (case read_loop (rx w) (buffer w, pos w) of
        (r, rest, buf, p) \<Rightarrow> (r, w\<lparr>rx := rest, buffer := buf, pos := p\<rparr>))"

subsection \<open>main\<close>

definition user_sw_read :: "world \<Rightarrow> bool \<times> world" where
  "user_sw_read w = (case button w of [] \<Rightarrow> (False, w) | x # xs \<Rightarrow> (x, w\<lparr>button := xs\<rparr>))"

text \<open>\<^verbatim>\<open>if (user_sw.read()) { printf(...); ledWelcomeAnimation(); }\<close>\<close>
definition poll_button :: "world \<Rightarrow> world" where
  "poll_button w =
     (case user_sw_read w of
        (pressed, w1) \<Rightarrow>
          if pressed then ledWelcomeAnimation (emit (Printf ButtonPressed) w1) else w1)"

text \<open>
  \<^verbatim>\<open>if (command_led_active && absolute_time_diff_us(command_led_off_time, get_absolute_time()) > 0)\<close>
\<close>
definition led_timeout :: "world \<Rightarrow> world" where
  "led_timeout w =
     (if command_led_active w \<and>
         0 < absolute_time_diff_us (command_led_off_time w) (get_absolute_time w)
      then (emit (LedRGB COMMAND_LED 0 0 0) w)\<lparr>command_led_active := False\<rparr>
      else w)"

text \<open>What the drain loop does with a line it received.\<close>
definition on_line :: "build \<Rightarrow> string \<Rightarrow> world \<Rightarrow> world" where
  "on_line b command w =
     (let w1 = handleCommands b command w
      in if b = WithLeds
         then w1\<lparr>command_led_off_time := make_timeout_time_ms 150 w1, command_led_active := True\<rparr>
         else w1)"

text \<open>
  \<^verbatim>\<open>for (int i = 0; i < 100; i++)\<close> with its \<^verbatim>\<open>break\<close>; the result carries the final
  \<open>i\<close> and \<open>had_input\<close>.
\<close>
function drain :: "build \<Rightarrow> nat \<Rightarrow> bool \<Rightarrow> world \<Rightarrow> nat \<times> bool \<times> world" where
  "drain b i had_input w =
     (if i < 100 then
        (case readSerialLine w of
           (Some command, w1) \<Rightarrow> drain b (i + 1) True (on_line b command w1)
         | (None, w1) \<Rightarrow> (i, had_input, w1))
      else (i, had_input, w))"
  by pat_completeness auto
termination
  by (relation "measure (\<lambda>(b, i, h, w). 100 - i)") auto

declare drain.simps [simp del]

text \<open>One pass through the body of \<^verbatim>\<open>while (true)\<close> in \<^verbatim>\<open>main\<close>.\<close>
definition main_iteration :: "build \<Rightarrow> world \<Rightarrow> world" where
  "main_iteration b w =
     (let w1 = (if b = WithLeds then led_timeout (poll_button w) else w)
      in case drain b 0 False w1 of
           (i, had_input, w2) \<Rightarrow> if \<not> had_input then sleep_ms 1 w2 else w2)"

text \<open>Everything \<^verbatim>\<open>main\<close> does before the loop.\<close>
definition main_start :: "build \<Rightarrow> world \<Rightarrow> world" where
  "main_start b w =
     (let w1 = setup_fn b w
      in if b = WithLeds
         then (let w2 = ledWelcomeAnimation w1
               in w2\<lparr>command_led_off_time := get_absolute_time w2, command_led_active := False\<rparr>)
         else w1)"

text \<open>The loop never ends; \<open>main_loop n\<close> is its first \<open>n\<close> passes.\<close>
fun main_loop :: "nat \<Rightarrow> build \<Rightarrow> world \<Rightarrow> world" where
  "main_loop 0 b w = w"
| "main_loop (Suc n) b w = main_loop n b (main_iteration b w)"

subsection \<open>The command parser as the specification words it\<close>

text \<open>
  The specification describes parsing as: split the line on \<open>;\<close> into segments (empty
  ones included), skip the empty segments and those without a comma, split each of the
  others at its first comma, convert both parts, and accept or reject by range. The
  definitions \<open>spec_...\<close> follow those words; they are compared below with
  \<open>handleCommands\<close>, which is written from the source.
\<close>

fun split_semis :: "string \<Rightarrow> string list" where
  "split_semis [] = [[]]"
| "split_semis (c # cs) =
     (if c = CHR '';'' then [] # split_semis cs
      else (case split_semis cs of [] \<Rightarrow> [[c]] | seg # segs \<Rightarrow> (c # seg) # segs))"

datatype outcome = Accepted int int | Rejected int int

definition spec_segments :: "string \<Rightarrow> string list" where
  "spec_segments line = filter (\<lambda>seg. seg \<noteq> [] \<and> CHR '','' \<in> set seg) (split_semis line)"

definition spec_outcome :: "string \<Rightarrow> outcome" where
  "spec_outcome seg =
     (let channel = atoi (takeWhile (\<lambda>c. c \<noteq> CHR '','') seg);
          angle = atoi (drop 1 (dropWhile (\<lambda>c. c \<noteq> CHR '','') seg))
      in if 0 \<le> channel \<and> channel < int NUM_SERVOS \<and> MIN_ANGLE \<le> angle \<and> angle \<le> MAX_ANGLE
         then Accepted channel angle else Rejected channel angle)"

definition spec_parse :: "string \<Rightarrow> outcome list" where
  "spec_parse line = map spec_outcome (spec_segments line)"

fun spec_batch :: "outcome list \<Rightarrow> (int \<times> int) list" where
  "spec_batch [] = []"
| "spec_batch (Accepted c a # os) = (c, a) # spec_batch os"
| "spec_batch (Rejected c a # os) = spec_batch os"

text \<open>What the loop body does for a segment with that outcome.\<close>
fun perform :: "outcome \<Rightarrow> world \<Rightarrow> world" where
  "perform (Accepted c a) w = apply_command c a w"
| "perform (Rejected c a) w = emit (Printf (Invalid c a)) w"

text \<open>The tokens that the successive \<^verbatim>\<open>strtok\<close> calls of one line return.\<close>
function tokens :: "string \<Rightarrow> string list" where
  "tokens s = (case strtok s of None \<Rightarrow> [] | Some (t, r) \<Rightarrow> t # tokens r)"
  by pat_completeness auto
termination
  by (relation "measure length") (auto dest: strtok_shorter)

declare tokens.simps [simp del]


text \<open>The pulse most recently sent to servo \<open>s\<close>, read off the trace.\<close>
fun last_pulse :: "nat \<Rightarrow> event list \<Rightarrow> rat option" where
  "last_pulse s [] = None"
| "last_pulse s (e # es) =
     (case last_pulse s es of
        Some p \<Rightarrow> Some p
      | None \<Rightarrow> (case e of ServoPulse s' p \<Rightarrow> if s' = s then Some p else None | _ \<Rightarrow> None))"

text \<open>
  What holds of the statics of \<^verbatim>\<open>readSerialLine\<close> between calls: the buffer has its
  256 bytes, the cursor is at most 255, and no NUL lies below the cursor.
\<close>
definition asm_ok :: "char list \<times> nat \<Rightarrow> bool" where
  "asm_ok bp = (case bp of (buf, p) \<Rightarrow>
      length buf = 256 \<and> p \<le> 255 \<and> CHR 0x00 \<notin> set (take p buf))"

text \<open>The source's test \<^verbatim>\<open>c >= 32 && c <= 126\<close>.\<close>
definition printable :: "int \<Rightarrow> bool" where
  "printable c = (32 \<le> c \<and> c \<le> 126)"

text \<open>The library calls of the source's \<^verbatim>\<open>setup()\<close>, in order.\<close>
definition setup_calls :: "build \<Rightarrow> event list" where
  "setup_calls b =
     [StdioInit] @ (if b = WithLeds then [LedStart] else []) @
     concat (map (\<lambda>s. [ServoNew s, ServoInit s, CalRef s, CalFirst s (- 140), CalLast s 140])
                 [0..<NUM_SERVOS]) @
     map ServoEnable [0..<NUM_SERVOS] @
     (if b = WithLeds
      then [LedClear, LedRGB READY_LED 0 64 0, LedRGB COMMAND_LED 0 0 0] @
           map (\<lambda>i. LedRGB i 0 0 0) [2..<NUM_LEDS]
      else []) @
     [Printf (Initialized NUM_SERVOS), Printf (RangeMsg MIN_ANGLE MAX_ANGLE),
      CalQuery 0, CalQuery 0, Printf CalibrationMsg] @
     (if b = WithLeds then [Printf LedInfoMsg] else []) @ [Printf ReadyMsg]"

text \<open>Reading and handling \<open>n\<close> complete lines in succession; \<open>None\<close> when fewer are available.\<close>
fun take_lines :: "build \<Rightarrow> nat \<Rightarrow> world \<Rightarrow> world option" where
  "take_lines b 0 w = Some w"
| "take_lines b (Suc n) w =
     (case readSerialLine w of
        (Some command, w1) \<Rightarrow> take_lines b n (on_line b command w1)
      | (None, w1) \<Rightarrow> None)"

section \<open>Auxiliary facts\<close>

subsection \<open>Effects of the primitive operations on each field\<close>

lemma emit_fields [simp]:
  "currentPositions (emit e w) = currentPositions w"
  "buffer (emit e w) = buffer w"
  "pos (emit e w) = pos w"
  "command_led_off_time (emit e w) = command_led_off_time w"
  "command_led_active (emit e w) = command_led_active w"
  "rx (emit e w) = rx w"
  "button (emit e w) = button w"
  "clock (emit e w) = clock w"
  "trace (emit e w) = trace w @ [e]"
  "accesses (emit e w) = accesses w"
  by (simp_all add: emit_def)

lemma subscript_fields [simp]:
  "currentPositions (subscript a i w) = currentPositions w"
  "buffer (subscript a i w) = buffer w"
  "pos (subscript a i w) = pos w"
  "command_led_off_time (subscript a i w) = command_led_off_time w"
  "command_led_active (subscript a i w) = command_led_active w"
  "rx (subscript a i w) = rx w"
  "button (subscript a i w) = button w"
  "clock (subscript a i w) = clock w"
  "trace (subscript a i w) = trace w"
  "accesses (subscript a i w) = accesses w @ [(a, i)]"
  by (simp_all add: subscript_def)

lemma servo_call_fields [simp]:
  "currentPositions (servo_call i m w) = currentPositions w"
  "buffer (servo_call i m w) = buffer w"
  "pos (servo_call i m w) = pos w"
  "command_led_off_time (servo_call i m w) = command_led_off_time w"
  "command_led_active (servo_call i m w) = command_led_active w"
  "rx (servo_call i m w) = rx w"
  "button (servo_call i m w) = button w"
  "clock (servo_call i m w) = clock w"
  "trace (servo_call i m w) = trace w @ [m (nat i)]"
  "accesses (servo_call i m w) = accesses w @ [(Servos, i)]"
  by (simp_all add: servo_call_def)

lemma store_position_fields [simp]:
  "currentPositions (store_position i v w) = (currentPositions w)[nat i := v]"
  "buffer (store_position i v w) = buffer w"
  "pos (store_position i v w) = pos w"
  "command_led_off_time (store_position i v w) = command_led_off_time w"
  "command_led_active (store_position i v w) = command_led_active w"
  "rx (store_position i v w) = rx w"
  "button (store_position i v w) = button w"
  "clock (store_position i v w) = clock w"
  "trace (store_position i v w) = trace w"
  "accesses (store_position i v w) = accesses w @ [(CurrentPositions, i)]"
  by (simp_all add: store_position_def)

lemma sleep_ms_fields [simp]:
  "currentPositions (sleep_ms n w) = currentPositions w"
  "buffer (sleep_ms n w) = buffer w"
  "pos (sleep_ms n w) = pos w"
  "command_led_off_time (sleep_ms n w) = command_led_off_time w"
  "command_led_active (sleep_ms n w) = command_led_active w"
  "rx (sleep_ms n w) = rx w"
  "button (sleep_ms n w) = button w"
  "clock (sleep_ms n w) = clock w + n * 1000"
  "trace (sleep_ms n w) = trace w @ [SleepMs n]"
  "accesses (sleep_ms n w) = accesses w"
  by (simp_all add: sleep_ms_def)

lemma apply_command_fields [simp]:
  "currentPositions (apply_command c a w) = (currentPositions w)[nat c := a]"
  "buffer (apply_command c a w) = buffer w"
  "pos (apply_command c a w) = pos w"
  "command_led_off_time (apply_command c a w) = command_led_off_time w"
  "command_led_active (apply_command c a w) = command_led_active w"
  "rx (apply_command c a w) = rx w"
  "button (apply_command c a w) = button w"
  "clock (apply_command c a w) = clock w"
  "trace (apply_command c a w) =
     trace w @ [ServoValue (nat c), Printf (Setting c a), ServoPulse (nat c) (pulse_us a),
                ServoValue (nat c), Printf (Moved c a)]"
  "accesses (apply_command c a w) =
     accesses w @ [(Servos, c), (Servos, c), (CurrentPositions, c), (Servos, c)]"
  by (simp_all add: apply_command_def Let_def)

subsection \<open>The token loop is a fold over the segments\<close>

lemma token_loop_fold: "token_loop (strtok s) w = fold handle_token (tokens s) w"
proof (induction s arbitrary: w rule: tokens.induct)
  case (1 s)
  show ?case
  proof (cases "strtok s")
    case None
    then show ?thesis by (simp add: tokens.simps[of s])
  next
    case (Some tr)
    obtain t r where tr: "tr = (t, r)" by (cases tr)
    with Some 1 show ?thesis by (simp add: tokens.simps[of s])
  qed
qed

lemma strtok_Nil: "strtok [] = None"
  by (simp add: strtok_def)

lemma strtok_semi: "strtok (CHR '';'' # s) = strtok s"
  by (simp add: strtok_def)

lemma strtok_other:
  "c \<noteq> CHR '';'' \<Longrightarrow>
   strtok (c # s) = Some (c # takeWhile (\<lambda>c. c \<noteq> CHR '';'') s,
                          drop 1 (dropWhile (\<lambda>c. c \<noteq> CHR '';'') s))"
  by (simp add: strtok_def)

lemma split_semis_ne: "split_semis s \<noteq> []"
  by (induction s) (simp_all split: list.splits)

lemma split_semis_unfold:
  "split_semis s =
     takeWhile (\<lambda>c. c \<noteq> CHR '';'') s #
     (case dropWhile (\<lambda>c. c \<noteq> CHR '';'') s of [] \<Rightarrow> [] | x # r \<Rightarrow> split_semis r)"
proof (induction s)
  case Nil
  show ?case by simp
next
  case (Cons c s)
  show ?case
  proof (cases "c = CHR '';''")
    case True
    then show ?thesis by simp
  next
    case False
    obtain seg segs where ss: "split_semis s = seg # segs"
      using split_semis_ne[of s] by (cases "split_semis s") auto
    with Cons False show ?thesis by simp
  qed
qed

lemma tokens_split: "tokens s = filter (\<lambda>seg. seg \<noteq> []) (split_semis s)"
proof (induction s rule: length_induct)
  case (1 s)
  show ?case
  proof (cases s)
    case Nil
    then show ?thesis by (simp add: tokens.simps[of "[]"] strtok_Nil)
  next
    case (Cons c r)
    show ?thesis
    proof (cases "c = CHR '';''")
      case True
      have "tokens (CHR '';'' # r) = tokens r"
        by (subst tokens.simps, subst (2) tokens.simps) (simp add: strtok_semi)
      then have "tokens s = tokens r" using Cons True by simp
      also have "\<dots> = filter (\<lambda>seg. seg \<noteq> []) (split_semis r)"
        using 1 Cons by simp
      finally show ?thesis using Cons True by simp
    next
      case False
      define d where "d = dropWhile (\<lambda>c. c \<noteq> CHR '';'') r"
      have dl: "length d \<le> length r" unfolding d_def by (rule length_dropWhile_le)
      have t: "tokens s = (c # takeWhile (\<lambda>c. c \<noteq> CHR '';'') r) # tokens (drop 1 d)"
        using Cons False by (simp add: tokens.simps[of "c # r"] strtok_other d_def)
      have sp: "split_semis s = (c # takeWhile (\<lambda>c. c \<noteq> CHR '';'') r) #
                  (case d of [] \<Rightarrow> [] | x # r' \<Rightarrow> split_semis r')"
        using Cons False by (subst split_semis_unfold) (simp add: d_def)
      have rest: "tokens (drop 1 d) =
                  filter (\<lambda>seg. seg \<noteq> []) (case d of [] \<Rightarrow> [] | x # r' \<Rightarrow> split_semis r')"
      proof (cases d)
        case Nil
        then show ?thesis by (simp add: tokens.simps[of "[]"] strtok_Nil)
      next
        case (Cons x r')
        then have "length r' < length s" using dl \<open>s = c # r\<close> by simp
        then show ?thesis using 1 Cons by simp
      qed
      show ?thesis unfolding t sp rest by simp
    qed
  qed
qed

lemma handle_token_no_comma: "CHR '','' \<notin> set t \<Longrightarrow> handle_token t w = w"
  by (simp add: handle_token_def strchr_split_def)

lemma handle_token_comma:
  "CHR '','' \<in> set t \<Longrightarrow> handle_token t w = perform (spec_outcome t) w"
  by (simp add: handle_token_def strchr_split_def spec_outcome_def in_range_def Let_def)

lemma fold_handle_tokens:
  "fold handle_token ts w =
   fold perform (map spec_outcome (filter (\<lambda>seg. CHR '','' \<in> set seg) ts)) w"
  by (induction ts arbitrary: w) (simp_all add: handle_token_no_comma handle_token_comma)

lemma handleCommands_fold:
  "handleCommands b line w =
   fold perform (spec_parse (strcpy line)) (if b = WithLeds then flashCommandLED w else w)"
proof -
  have "filter (\<lambda>seg. CHR '','' \<in> set seg) (tokens (strcpy line)) = spec_segments (strcpy line)"
    by (simp add: tokens_split spec_segments_def conj_commute)
  then show ?thesis
    by (simp add: handleCommands_def Let_def token_loop_fold fold_handle_tokens spec_parse_def)
qed

subsection \<open>Single precision is exact on small integers\<close>

lemma round_even_int: "round_even (of_int k) = k"
  by (simp add: round_even_def)

lemma bitlen_pos: "0 < n \<Longrightarrow> 1 \<le> bitlen n"
  by (simp add: bitlen_ge_iff_power)

lemma ilog2_of_int:
  assumes "0 < n"
  shows "ilog2 (of_int n) = bitlen n - 1"
proof -
  have b: "2 ^ nat (bitlen n - 1) \<le> n" using bitlen_bounds[OF assms] by simp
  have "1 \<le> bitlen n" using assms by (rule bitlen_pos)
  then have "pow2 (bitlen n - 1) = of_int (2 ^ nat (bitlen n - 1))"
    by (simp add: pow2_def)
  also have "\<dots> \<le> of_int n" using b by (simp only: of_int_le_iff)
  finally have "pow2 (bitlen n - 1) \<le> of_int n" .
  moreover have "bitlen 1 = 1" by (simp add: bitlen_alt_def)
  ultimately show ?thesis
    by (simp add: ilog2_def)
qed

lemma significand_of_int:
  assumes "0 < m" "m < 2 ^ 24"
  shows "of_int (round_even (of_int m / pow2 (max (ilog2 (of_int m)) (- 126) - 23)))
           * pow2 (max (ilog2 (of_int m)) (- 126) - 23) = (of_int m :: rat)"
proof -
  define e where "e = bitlen m - 1"
  have e0: "0 \<le> e" using bitlen_pos[OF assms(1)] by (simp add: e_def)
  have "bitlen m \<le> 24" using assms(2) by (simp add: bitlen_le_iff_power)
  then have e23: "e \<le> 23" by (simp add: e_def)
  have il: "max (ilog2 (of_int m)) (- 126) = e"
    using ilog2_of_int[OF assms(1)] e0 by (simp add: e_def)
  define k where "k = nat (23 - e)"
  have u: "pow2 (e - 23) = 1 / 2 ^ k"
  proof (cases "e = 23")
    case True then show ?thesis by (simp add: pow2_def k_def)
  next
    case False
    then have "\<not> 0 \<le> e - 23" using e23 by simp
    then show ?thesis by (simp add: pow2_def k_def)
  qed
  have q: "(of_int m :: rat) / pow2 (e - 23) = of_int (m * 2 ^ k)"
    by (simp add: u)
  show ?thesis
    unfolding il q round_even_int by (simp add: u)
qed

lemma fl32_of_int:
  assumes "\<bar>n\<bar> < 2 ^ 24"
  shows "fl32 (of_int n) = of_int n"
proof (cases "n = 0")
  case True
  then show ?thesis by (simp add: fl32_def)
next
  case False
  then have m: "0 < \<bar>n\<bar>" by simp
  have a: "\<bar>of_int n :: rat\<bar> = of_int \<bar>n\<bar>" by simp
  have s: "sgn (of_int n :: rat) * of_int \<bar>n\<bar> = of_int n"
    by (cases "0 < n") (use False in auto)
  have "fl32 (of_int n) =
        sgn (of_int n) * (of_int (round_even (of_int \<bar>n\<bar> / pow2 (max (ilog2 (of_int \<bar>n\<bar>)) (- 126) - 23)))
                          * pow2 (max (ilog2 (of_int \<bar>n\<bar>)) (- 126) - 23))"
    using False unfolding fl32_def a by (simp add: Let_def)
  also have "\<dots> = sgn (of_int n) * of_int \<bar>n\<bar>"
    unfolding significand_of_int[OF m assms] ..
  finally show ?thesis using s by simp
qed

lemma pulse_us_two_roundings:
  assumes "- 140 \<le> a" "a \<le> 140"
  shows "pulse_us a = fl32 (1500 + fl32 (of_int a * 500 / 140))"
proof -
  have 1: "fl32 (of_int a) = of_int a" using assms by (intro fl32_of_int) simp
  have "\<bar>a * 500\<bar> < 2 ^ 24" using assms by simp
  then have 2: "fl32 (of_int (a * 500)) = of_int (a * 500)" by (rule fl32_of_int)
  show ?thesis unfolding pulse_us_def 1 using 2 by simp
qed

subsection \<open>Rounding error of single precision\<close>

lemma pow2_powi: "pow2 e = 2 powi e"
  by (simp add: pow2_def power_int_def inverse_eq_divide power_one_over)

lemma pow2_pos: "0 < pow2 e"
  by (simp add: pow2_powi)

lemma pow2_mono: "a \<le> b \<Longrightarrow> pow2 a \<le> pow2 b"
  by (simp add: pow2_powi power_int_increasing)

lemma pow2_half: "pow2 (e - 23) / 2 = pow2 (e - 24)"
proof -
  have "pow2 (e - 23) = pow2 ((e - 24) + 1)" by simp
  also have "\<dots> = pow2 (e - 24) * 2" unfolding pow2_powi by (subst power_int_add) simp_all
  finally show ?thesis by simp
qed

lemma round_even_err: "\<bar>of_int (round_even r) - r\<bar> \<le> 1 / 2"
proof -
  define f where "f = \<lfloor>r\<rfloor>"
  define d where "d = r - of_int f"
  have d: "0 \<le> d" "d < 1" unfolding d_def f_def by linarith+
  have r: "r = of_int f + d" by (simp add: d_def)
  have "round_even r = (if d < 1 / 2 then f else if 1 / 2 < d then f + 1
                         else if even f then f else f + 1)"
    by (simp add: round_even_def Let_def f_def d_def)
  then show ?thesis using d unfolding r by (auto simp: abs_if)
qed

lemma fl32_err: "\<bar>fl32 x - x\<bar> \<le> pow2 (max (ilog2 \<bar>x\<bar>) (- 126) - 24)"
proof (cases "x = 0")
  case True
  then show ?thesis using pow2_pos[of "max (ilog2 \<bar>x\<bar>) (- 126) - 24"] by (simp add: fl32_def)
next
  case False
  define e where "e = max (ilog2 \<bar>x\<bar>) (- 126)"
  define u where "u = pow2 (e - 23)"
  define n where "n = round_even (\<bar>x\<bar> / u)"
  have u: "0 < u" unfolding u_def by (rule pow2_pos)
  have fl: "fl32 x = sgn x * of_int n * u"
    using False by (simp add: fl32_def Let_def e_def u_def n_def)
  have sx: "sgn x * \<bar>x\<bar> = x" by (rule sgn_mult_abs)
  have "sgn x * (of_int n * u - \<bar>x\<bar>) = sgn x * of_int n * u - sgn x * \<bar>x\<bar>"
    by (simp add: algebra_simps)
  also have "\<dots> = fl32 x - x" unfolding fl sx ..
  finally have "fl32 x - x = sgn x * (of_int n * u - \<bar>x\<bar>)" by simp
  then have "\<bar>fl32 x - x\<bar> = \<bar>of_int n * u - \<bar>x\<bar>\<bar>"
    using False by (simp add: abs_mult abs_sgn_eq)
  also have "of_int n * u - \<bar>x\<bar> = u * (of_int n - \<bar>x\<bar> / u)"
    using u by (simp add: algebra_simps)
  also have "\<bar>u * (of_int n - \<bar>x\<bar> / u)\<bar> = u * \<bar>of_int n - \<bar>x\<bar> / u\<bar>"
    using u by (simp add: abs_mult)
  also have "\<dots> \<le> u * (1 / 2)"
    using u round_even_err[of "\<bar>x\<bar> / u"] unfolding n_def by (intro mult_left_mono) simp_all
  also have "\<dots> = pow2 (e - 24)" unfolding u_def using pow2_half[of e] by simp
  finally show ?thesis unfolding e_def .
qed

lemma ilog2_le:
  assumes "0 < x"
  shows "pow2 (ilog2 x) \<le> x"
proof -
  obtain p q where pq: "quotient_of x = (p, q)" by (cases "quotient_of x")
  have q: "0 < q" using quotient_of_denom_pos[OF pq] .
  have x: "x = of_int p / of_int q" using quotient_of_div[OF pq] .
  have p: "0 < p" using assms q unfolding x by (simp add: zero_less_divide_iff)
  define d where "d = bitlen p - bitlen q"
  show ?thesis
  proof (cases "pow2 d \<le> x")
    case True
    then show ?thesis by (simp add: ilog2_def pq d_def)
  next
    case False
    then have il: "ilog2 x = d - 1" by (simp add: ilog2_def pq d_def)
    have bp: "1 \<le> bitlen p" and bq: "1 \<le> bitlen q" using p q by (simp_all add: bitlen_pos)
    have "2 ^ nat (bitlen p - 1) \<le> p" using bitlen_bounds[OF p] by simp
    then have "(of_int (2 ^ nat (bitlen p - 1)) :: rat) \<le> of_int p" by (simp only: of_int_le_iff)
    then have lo: "(2 powi (bitlen p - 1) :: rat) \<le> of_int p"
      using bp by (simp add: power_int_def)
    have "q < 2 ^ nat (bitlen q)" using bitlen_bounds[OF q] by simp
    then have "(of_int q :: rat) < of_int (2 ^ nat (bitlen q))" by (simp only: of_int_less_iff)
    then have hi: "(of_int q :: rat) < 2 powi (bitlen q)"
      using bq by (simp add: power_int_def)
    have "pow2 (d - 1) = 2 powi (bitlen p - 1) / 2 powi (bitlen q)"
      unfolding pow2_powi d_def by (subst power_int_diff[symmetric]) (simp_all add: algebra_simps)
    also have "\<dots> \<le> of_int p / 2 powi (bitlen q)"
      using lo by (intro divide_right_mono) simp_all
    also have "\<dots> \<le> of_int p / of_int q"
      using hi p q by (intro divide_left_mono) simp_all
    finally have "pow2 (d - 1) \<le> x" unfolding x .
    then show ?thesis using il by simp
  qed
qed

lemma ilog2_less:
  assumes "0 < x" "x < pow2 k"
  shows "ilog2 x < k"
proof (rule ccontr)
  assume "\<not> ilog2 x < k"
  then have "pow2 k \<le> pow2 (ilog2 x)" by (intro pow2_mono) simp
  with ilog2_le[OF assms(1)] assms(2) show False by simp
qed

lemma fl32_err_below:
  assumes "\<bar>x\<bar> < pow2 k" "- 125 \<le> k"
  shows "\<bar>fl32 x - x\<bar> \<le> pow2 (k - 25)"
proof (cases "x = 0")
  case True
  then show ?thesis using pow2_pos[of "k - 25"] by (simp add: fl32_def)
next
  case False
  then have "ilog2 \<bar>x\<bar> < k" using assms(1) by (intro ilog2_less) simp_all
  then have "max (ilog2 \<bar>x\<bar>) (- 126) - 24 \<le> k - 25" using assms(2) by simp
  from pow2_mono[OF this] fl32_err[of x] show ?thesis by simp
qed

lemma pulse_us_close:
  assumes "- 140 \<le> a" "a \<le> 140"
  shows "\<bar>pulse_us a - (1500 + of_int a * 500 / 140)\<bar> \<le> 1 / 10000"
proof -
  define q :: rat where "q = of_int a * 500 / 140"
  have qb: "\<bar>q\<bar> \<le> 500"
  proof -
    have "\<bar>of_int a :: rat\<bar> \<le> 140" using assms by (simp add: abs_le_iff)
    then show ?thesis unfolding q_def by (simp add: abs_mult)
  qed
  have p9: "pow2 9 = 512" and p11: "pow2 11 = 2048"
    and p16: "pow2 (9 - 25) = 1 / 65536" and p14: "pow2 (11 - 25) = 1 / 16384"
    by (simp_all add: pow2_def)
  have e1: "\<bar>fl32 q - q\<bar> \<le> 1 / 65536"
    using fl32_err_below[of q 9] qb unfolding p9 p16 by simp
  define s where "s = 1500 + fl32 q"
  have "\<bar>s\<bar> \<le> 1500 + \<bar>fl32 q\<bar>" unfolding s_def by simp
  also have "\<bar>fl32 q\<bar> \<le> \<bar>q\<bar> + \<bar>fl32 q - q\<bar>" by simp
  finally have sb: "\<bar>s\<bar> < 2048" using qb e1 by simp
  have e2: "\<bar>fl32 s - s\<bar> \<le> 1 / 16384"
    using fl32_err_below[of s 11] sb unfolding p11 p14 by simp
  have "pulse_us a = fl32 s"
    unfolding s_def q_def using pulse_us_two_roundings[OF assms] .
  moreover have "fl32 s - (1500 + q) = (fl32 s - s) + (fl32 q - q)" by (simp add: s_def)
  ultimately have "\<bar>pulse_us a - (1500 + q)\<bar> \<le> \<bar>fl32 s - s\<bar> + \<bar>fl32 q - q\<bar>"
    by (simp only: abs_triangle_ineq)
  also have "\<dots> \<le> 1 / 16384 + 1 / 65536" using e1 e2 by (rule add_mono[rotated])
  finally show ?thesis unfolding q_def by simp
qed

lemma pulse_us_exact_multiples:
  assumes "- 140 \<le> a" "a \<le> 140" "7 dvd a"
  shows "pulse_us a = 1500 + of_int a * 500 / 140"
proof -
  from assms(3) obtain k where k: "a = 7 * k" by (auto simp: dvd_def)
  have kb: "\<bar>k\<bar> \<le> 20" using assms(1,2) k by simp
  have q: "(of_int a :: rat) * 500 / 140 = of_int (25 * k)" by (simp add: k)
  have 1: "fl32 (of_int (25 * k)) = of_int (25 * k)" using kb by (intro fl32_of_int) simp
  have 2: "fl32 (of_int (1500 + 25 * k)) = of_int (1500 + 25 * k)"
    using kb by (intro fl32_of_int) simp
  show ?thesis
    unfolding pulse_us_two_roundings[OF assms(1,2)] q 1 using 2 by simp
qed

lemma ilog2_gt:
  assumes "0 < x"
  shows "x < pow2 (ilog2 x + 1)"
proof -
  obtain p q where pq: "quotient_of x = (p, q)" by (cases "quotient_of x")
  have q: "0 < q" using quotient_of_denom_pos[OF pq] .
  have x: "x = of_int p / of_int q" using quotient_of_div[OF pq] .
  have p: "0 < p" using assms q unfolding x by (simp add: zero_less_divide_iff)
  define d where "d = bitlen p - bitlen q"
  show ?thesis
  proof (cases "pow2 d \<le> x")
    case False
    then show ?thesis by (simp add: ilog2_def pq d_def)
  next
    case True
    then have il: "ilog2 x = d" by (simp add: ilog2_def pq d_def)
    have bp: "1 \<le> bitlen p" and bq: "1 \<le> bitlen q" using p q by (simp_all add: bitlen_pos)
    have "p < 2 ^ nat (bitlen p)" using bitlen_bounds[OF p] by simp
    then have "(of_int p :: rat) < of_int (2 ^ nat (bitlen p))" by (simp only: of_int_less_iff)
    then have hi: "(of_int p :: rat) < 2 powi (bitlen p)"
      using bp by (simp add: power_int_def)
    have "2 ^ nat (bitlen q - 1) \<le> q" using bitlen_bounds[OF q] by simp
    then have "(of_int (2 ^ nat (bitlen q - 1)) :: rat) \<le> of_int q" by (simp only: of_int_le_iff)
    then have lo: "(2 powi (bitlen q - 1) :: rat) \<le> of_int q"
      using bq by (simp add: power_int_def)
    have "of_int p / of_int q < 2 powi (bitlen p) / (of_int q :: rat)"
      using hi q by (intro divide_strict_right_mono) simp_all
    also have "\<dots> \<le> 2 powi (bitlen p) / 2 powi (bitlen q - 1)"
      using lo q by (intro divide_left_mono) simp_all
    also have "\<dots> = pow2 (d + 1)"
      unfolding pow2_powi d_def by (subst power_int_diff[symmetric]) (simp_all add: algebra_simps)
    finally have "x < pow2 (d + 1)" unfolding x .
    then show ?thesis using il by simp
  qed
qed

text \<open>A check of the rounding against a known value: \<open>0.1f\<close> is \<open>0x3DCCCCCD\<close>.\<close>
lemma fl32_tenth: "fl32 (1 / 10) = 13421773 / 134217728"
  by code_simp

lemma pulse_us_endpoints:
  "pulse_us (- 140) = 1000" "pulse_us 0 = 1500" "pulse_us 140 = 2000"
  by code_simp+

subsection \<open>What one command line changes\<close>

lemma strcpy_plain: "CHR 0x00 \<notin> set s \<Longrightarrow> strcpy s = s"
  by (auto simp: strcpy_def takeWhile_eq_all_conv)

lemma zeros18:
  "replicate NUM_SERVOS (0::int) = [0, 0, 0, 0, 0, 0, 0, 0, 0, 0, 0, 0, 0, 0, 0, 0, 0, 0]"
  by (simp add: NUM_SERVOS_def numeral_eq_Suc)

lemma perform_frame [simp]:
  "buffer (perform oc w) = buffer w"
  "pos (perform oc w) = pos w"
  "command_led_off_time (perform oc w) = command_led_off_time w"
  "command_led_active (perform oc w) = command_led_active w"
  "rx (perform oc w) = rx w"
  "button (perform oc w) = button w"
  "clock (perform oc w) = clock w"
  by (cases oc; simp)+

lemma fold_perform_frame [simp]:
  "buffer (fold perform os w) = buffer w"
  "pos (fold perform os w) = pos w"
  "command_led_off_time (fold perform os w) = command_led_off_time w"
  "command_led_active (fold perform os w) = command_led_active w"
  "rx (fold perform os w) = rx w"
  "button (fold perform os w) = button w"
  "clock (fold perform os w) = clock w"
  by (induction os arbitrary: w; simp)+

lemma flashCommandLED_fields [simp]:
  "currentPositions (flashCommandLED w) = currentPositions w"
  "buffer (flashCommandLED w) = buffer w"
  "pos (flashCommandLED w) = pos w"
  "command_led_off_time (flashCommandLED w) = command_led_off_time w"
  "command_led_active (flashCommandLED w) = command_led_active w"
  "rx (flashCommandLED w) = rx w"
  "button (flashCommandLED w) = button w"
  "clock (flashCommandLED w) = clock w"
  "trace (flashCommandLED w) = trace w @ [LedRGB COMMAND_LED 0 0 128]"
  "accesses (flashCommandLED w) = accesses w"
  by (simp_all add: flashCommandLED_def)

lemma handleCommands_frame [simp]:
  "buffer (handleCommands b line w) = buffer w"
  "pos (handleCommands b line w) = pos w"
  "command_led_off_time (handleCommands b line w) = command_led_off_time w"
  "command_led_active (handleCommands b line w) = command_led_active w"
  "rx (handleCommands b line w) = rx w"
  "button (handleCommands b line w) = button w"
  "clock (handleCommands b line w) = clock w"
  by (simp_all add: handleCommands_fold)

lemma spec_outcome_Accepted: "spec_outcome seg = Accepted c a \<Longrightarrow> in_range c a"
  by (auto simp: spec_outcome_def in_range_def Let_def split: if_splits)

lemma spec_parse_valid: "Accepted c a \<in> set (spec_parse s) \<Longrightarrow> in_range c a"
  by (auto simp: spec_parse_def dest: spec_outcome_Accepted[OF sym])

lemma in_range_nat: "in_range c a \<Longrightarrow> 0 \<le> c \<and> nat c < NUM_SERVOS"
  by (auto simp: in_range_def)

lemma positions_fold:
  "currentPositions (fold perform os w) =
   fold (\<lambda>(c, a) ps. ps[nat c := a]) (spec_batch os) (currentPositions w)"
proof (induction os arbitrary: w)
  case Nil
  show ?case by simp
next
  case (Cons oc os)
  show ?case by (cases oc) (simp_all add: Cons)
qed

lemma positions_length [simp]:
  "length (currentPositions (fold perform os w)) = length (currentPositions w)"
proof (induction os arbitrary: w)
  case Nil
  show ?case by simp
next
  case (Cons oc os)
  show ?case by (cases oc) (simp_all add: Cons)
qed

lemma positions_untouched:
  assumes "\<forall>a'. Accepted c a' \<notin> set os"
      and "\<forall>c' a'. Accepted c' a' \<in> set os \<longrightarrow> 0 \<le> c'"
      and "0 \<le> c"
  shows "currentPositions (fold perform os w) ! nat c = currentPositions w ! nat c"
  using assms
proof (induction os arbitrary: w)
  case Nil
  show ?case by simp
next
  case (Cons oc os)
  have ih: "\<And>w. currentPositions (fold perform os w) ! nat c = currentPositions w ! nat c"
    by (rule Cons.IH) (use Cons.prems in auto)
  show ?case
  proof (cases oc)
    case (Accepted c' a')
    with Cons.prems have "c' \<noteq> c" "0 \<le> c'" by auto
    with \<open>0 \<le> c\<close> have "nat c' \<noteq> nat c" by simp
    then show ?thesis using Accepted by (simp add: ih)
  next
    case (Rejected c' a')
    then show ?thesis by (simp add: ih)
  qed
qed

lemma last_pulse_append:
  "last_pulse s (xs @ ys) =
   (case last_pulse s ys of Some p \<Rightarrow> Some p | None \<Rightarrow> last_pulse s xs)"
  by (induction xs) (simp_all split: option.splits)

lemma last_pulse_untouched:
  assumes "\<forall>a'. Accepted c a' \<notin> set os"
      and "\<forall>c' a'. Accepted c' a' \<in> set os \<longrightarrow> 0 \<le> c'"
      and "0 \<le> c"
  shows "last_pulse (nat c) (trace (fold perform os w)) = last_pulse (nat c) (trace w)"
  using assms
proof (induction os arbitrary: w)
  case Nil
  show ?case by simp
next
  case (Cons oc os)
  have ih: "\<And>w. last_pulse (nat c) (trace (fold perform os w)) = last_pulse (nat c) (trace w)"
    by (rule Cons.IH) (use Cons.prems in auto)
  show ?case
  proof (cases oc)
    case (Accepted c' a')
    with Cons.prems have "c' \<noteq> c" "0 \<le> c'" by auto
    with \<open>0 \<le> c\<close> have "nat c' \<noteq> nat c" by simp
    then show ?thesis using Accepted by (simp add: ih last_pulse_append)
  next
    case (Rejected c' a')
    then show ?thesis by (simp add: ih last_pulse_append)
  qed
qed

lemma fold_perform_append:
  "fold perform (pre @ oc # post) w = fold perform post (perform oc (fold perform pre w))"
  by simp

lemma parse_3_50: "spec_parse ''3,50;3,-50'' = [Accepted 3 50, Accepted 3 (- 50)]"
  by (simp add: spec_parse_def spec_segments_def spec_outcome_def atoi_def isspace_def
        isdigit_def NUM_SERVOS_def MIN_ANGLE_def MAX_ANGLE_def)

lemma handle_token_reject:
  assumes "strchr_split seg = Some (left, right)"
      and "\<not> in_range (atoi left) (atoi right)"
  shows "handle_token seg u = emit (Printf (Invalid (atoi left) (atoi right))) u"
  using assms by (simp add: handle_token_def)

lemma handleCommands_tokens:
  "handleCommands b line w =
   fold handle_token (tokens (strcpy line)) (if b = WithLeds then flashCommandLED w else w)"
  by (simp add: handleCommands_def Let_def token_loop_fold)

lemma tokens_5_999: "tokens ''5,999'' = [''5,999'']"
  by (simp add: tokens_split)

lemma tokens_99_0: "tokens ''99,0'' = [''99,0'']"
  by (simp add: tokens_split)

lemma handle_5_999: "handle_token ''5,999'' u = emit (Printf (Invalid 5 999)) u"
  by (simp add: handle_token_def strchr_split_def atoi_def isspace_def isdigit_def in_range_def
      NUM_SERVOS_def MIN_ANGLE_def MAX_ANGLE_def)

lemma handle_99_0: "handle_token ''99,0'' u = emit (Printf (Invalid 99 0)) u"
  by (simp add: handle_token_def strchr_split_def atoi_def isspace_def isdigit_def in_range_def
      NUM_SERVOS_def MIN_ANGLE_def MAX_ANGLE_def)

lemma accesses_fold:
  assumes "\<forall>c a. Accepted c a \<in> set os \<longrightarrow> in_range c a"
  shows "\<exists>new. accesses (fold perform os w) = accesses w @ new \<and>
               (\<forall>(a, i) \<in> set new. 0 \<le> i \<and> i < int NUM_SERVOS)"
  using assms
proof (induction os arbitrary: w)
  case Nil
  show ?case by simp
next
  case (Cons oc os)
  have ih: "\<exists>new. accesses (fold perform os u) = accesses u @ new \<and>
               (\<forall>(a, i) \<in> set new. 0 \<le> i \<and> i < int NUM_SERVOS)" for u
    by (rule Cons.IH) (use Cons.prems in auto)
  show ?case
  proof (cases oc)
    case (Accepted c a)
    with Cons.prems have "in_range c a" by simp
    then have c: "0 \<le> c" "c < int NUM_SERVOS" by (simp_all add: in_range_def)
    from ih[of "apply_command c a w"] obtain new where
      n: "accesses (fold perform os (apply_command c a w)) = accesses (apply_command c a w) @ new"
         "\<forall>(a, i) \<in> set new. 0 \<le> i \<and> i < int NUM_SERVOS" by blast
    show ?thesis
      by (rule exI[of _ "[(Servos, c), (Servos, c), (CurrentPositions, c), (Servos, c)] @ new"])
         (use Accepted n c in simp)
  next
    case (Rejected c a)
    with ih[of "emit (Printf (Invalid c a)) w"] show ?thesis by simp
  qed
qed

subsection \<open>The line assembler\<close>

lemma char_of_printable: "printable c \<Longrightarrow> char_of c \<noteq> CHR 0x00"
proof -
  assume "printable c"
  then have c: "32 \<le> c" "c \<le> 126" by (simp_all add: printable_def)
  have "of_char (char_of c) = c mod 256" by (simp add: of_char_of)
  also have "\<dots> = c" using c by simp
  finally have "of_char (char_of c) = c" .
  moreover have "(of_char (CHR 0x00) :: int) = 0" by simp
  ultimately show ?thesis using c by (metis not_numeral_le_zero)
qed

lemma strcpy_terminated:
  assumes "p < length buf" "CHR 0x00 \<notin> set (take p buf)"
  shows "strcpy (buf[p := CHR 0x00]) = take p buf"
proof -
  have "buf[p := CHR 0x00] = take p buf @ CHR 0x00 # drop (Suc p) buf"
    using assms(1) by (simp add: upd_conv_take_nth_drop)
  moreover have "takeWhile (\<lambda>c. c \<noteq> CHR 0x00) (take p buf @ CHR 0x00 # drop (Suc p) buf) = take p buf"
    using assms(2) by (subst takeWhile_append2) auto
  ultimately show ?thesis by (simp add: strcpy_def)
qed

lemma take_Suc_update:
  "p < length buf \<Longrightarrow> take (Suc p) (buf[p := v]) = take p buf @ [v]"
  by (simp add: take_Suc_conv_app_nth)

lemma on_byte_newline:
  assumes "c = 10 \<or> c = 13" "0 < p"
  shows "on_byte c (buf, p) = (Some (buf[p := CHR 0x00]), buf[p := CHR 0x00], 0)"
  using assms by (auto simp: on_byte_def)

lemma on_byte_newline_empty:
  assumes "c = 10 \<or> c = 13"
  shows "on_byte c (buf, 0) = (None, buf, 0)"
  using assms by (auto simp: on_byte_def)

lemma on_byte_append:
  assumes "printable c" "p < 255"
  shows "on_byte c (buf, p) = (None, buf[p := char_of c], p + 1)"
  using assms by (auto simp: on_byte_def printable_def)

lemma on_byte_discard:
  assumes "c \<noteq> 10" "c \<noteq> 13" "\<not> printable c \<or> 255 \<le> p"
  shows "on_byte c (buf, p) = (None, buf, p)"
  using assms by (auto simp: on_byte_def printable_def)

lemma on_byte_ok:
  assumes "asm_ok (buf, p)"
  shows "asm_ok (snd (on_byte c (buf, p)))"
proof -
  from assms have l: "length buf = 256" and p: "p \<le> 255" and z: "CHR 0x00 \<notin> set (take p buf)"
    by (simp_all add: asm_ok_def)
  consider (nl) "c = 10 \<or> c = 13" "0 < p" | (nl0) "c = 10 \<or> c = 13" "p = 0"
    | (app) "printable c" "p < 255" | (dis) "c \<noteq> 10" "c \<noteq> 13" "\<not> printable c \<or> 255 \<le> p"
    by (cases "c = 10 \<or> c = 13"; cases "p = 0"; cases "printable c"; cases "p < 255") auto
  then show ?thesis
  proof cases
    case nl
    then show ?thesis using l by (simp add: on_byte_newline asm_ok_def)
  next
    case nl0
    then show ?thesis using assms by (simp add: on_byte_newline_empty)
  next
    case app
    have "take (p + 1) (buf[p := char_of c]) = take p buf @ [char_of c]"
      using take_Suc_update[of p buf] l app(2) by simp
    then show ?thesis using app l z char_of_printable[OF app(1)]
      by (simp add: on_byte_append asm_ok_def)
  next
    case dis
    then show ?thesis using assms by (simp add: on_byte_discard)
  qed
qed

lemma on_byte_emits_nonempty:
  assumes "asm_ok (buf, p)" "on_byte c (buf, p) = (Some line, bp')"
  shows "strcpy line = take p buf \<and> strcpy line \<noteq> [] \<and> bp' = (line, 0)"
proof -
  from assms(1) have l: "length buf = 256" and p: "p \<le> 255" and z: "CHR 0x00 \<notin> set (take p buf)"
    by (simp_all add: asm_ok_def)
  from assms(2) have c: "c = 10 \<or> c = 13" and p0: "0 < p"
    by (auto simp: on_byte_def split: if_splits)
  from assms(2) on_byte_newline[OF c p0, of buf]
  have line: "line = buf[p := CHR 0x00]" and bp: "bp' = (line, 0)" by auto
  have "strcpy line = take p buf" unfolding line using l p z by (intro strcpy_terminated) simp_all
  moreover have "take p buf \<noteq> []" using p0 l by auto
  ultimately show ?thesis using bp by simp
qed

lemma read_loop_line:
  assumes "asm_ok (buf, p)" "\<forall>x \<in> set xs. printable x" "c = 10 \<or> c = 13" "0 < p + length xs"
  shows "\<exists>line. read_loop (xs @ c # rest) (buf, p) = (Some line, rest, line, 0) \<and>
                length line = 256 \<and>
                strcpy line = take 255 (take p buf @ map char_of xs)"
  using assms
proof (induction xs arbitrary: buf p)
  case Nil
  then have l: "length buf = 256" and p: "p \<le> 255" "0 < p" and z: "CHR 0x00 \<notin> set (take p buf)"
    by (simp_all add: asm_ok_def)
  have t: "c \<noteq> PICO_ERROR_TIMEOUT" using Nil.prems(3) by (auto simp: PICO_ERROR_TIMEOUT_def)
  have "strcpy (buf[p := CHR 0x00]) = take p buf"
    using l p z by (intro strcpy_terminated) simp_all
  then show ?case using t l p by (simp add: on_byte_newline[OF Nil.prems(3) p(2)])
next
  case (Cons x xs)
  then have l: "length buf = 256" and p: "p \<le> 255" and z: "CHR 0x00 \<notin> set (take p buf)"
    by (simp_all add: asm_ok_def)
  from Cons.prems have px: "printable x" and pxs: "\<forall>x \<in> set xs. printable x" by simp_all
  have t: "x \<noteq> PICO_ERROR_TIMEOUT" using px by (auto simp: PICO_ERROR_TIMEOUT_def printable_def)
  show ?case
  proof (cases "p < 255")
    case True
    let ?buf = "buf[p := char_of x]"
    have ok: "asm_ok (?buf, p + 1)"
      using on_byte_ok[OF Cons.prems(1), of x] by (simp add: on_byte_append[OF px True])
    have tk: "take (p + 1) ?buf = take p buf @ [char_of x]"
      using take_Suc_update[of p buf] l True by simp
    have eq: "take 255 (take (p + 1) ?buf @ map char_of xs) =
              take 255 (take p buf @ map char_of (x # xs))"
      by (simp only: tk append_assoc append_Cons append_Nil list.map)
    have step: "read_loop ((x # xs) @ c # rest) (buf, p) = read_loop (xs @ c # rest) (?buf, p + 1)"
      using t by (simp add: on_byte_append[OF px True])
    from Cons.IH[OF ok pxs Cons.prems(3)] obtain line where
      "read_loop (xs @ c # rest) (?buf, p + 1) = (Some line, rest, line, 0)"
      "length line = 256" "strcpy line = take 255 (take (p + 1) ?buf @ map char_of xs)"
      by auto
    then show ?thesis unfolding step eq by blast
  next
    case False
    then have p255: "p = 255" using p by simp
    have nn: "x \<noteq> 10" "x \<noteq> 13" using px by (auto simp: printable_def)
    have ob: "on_byte x (buf, p) = (None, buf, p)"
      using nn False by (intro on_byte_discard) simp_all
    have eq: "take 255 (take p buf @ map char_of xs) =
              take 255 (take p buf @ map char_of (x # xs))"
      using l p255 by simp
    have step: "read_loop ((x # xs) @ c # rest) (buf, p) = read_loop (xs @ c # rest) (buf, p)"
      using t by (simp add: ob)
    from Cons.IH[OF Cons.prems(1) pxs Cons.prems(3)] p255 obtain line where
      "read_loop (xs @ c # rest) (buf, p) = (Some line, rest, line, 0)"
      "length line = 256" "strcpy line = take 255 (take p buf @ map char_of xs)"
      by auto
    then show ?thesis unfolding step eq by blast
  qed
qed


lemma readSerialLine_timeout:
  "rx w = PICO_ERROR_TIMEOUT # cs \<Longrightarrow> readSerialLine w = (None, w\<lparr>rx := cs\<rparr>)"
  by (simp add: readSerialLine_def)

lemma readSerialLine_emit:
  assumes "rx w = c # cs" "c \<noteq> PICO_ERROR_TIMEOUT"
      and "on_byte c (buffer w, pos w) = (Some line, buf', p')"
  shows "readSerialLine w = (Some line, w\<lparr>rx := cs, buffer := buf', pos := p'\<rparr>)"
  using assms by (simp add: readSerialLine_def)

lemma readSerialLine_continue:
  assumes "rx w = c # cs" "c \<noteq> PICO_ERROR_TIMEOUT"
      and "on_byte c (buffer w, pos w) = (None, buf', p')"
  shows "readSerialLine w = readSerialLine (w\<lparr>rx := cs, buffer := buf', pos := p'\<rparr>)"
  using assms by (simp add: readSerialLine_def)

lemma read_loop_ok:
  "asm_ok bp \<Longrightarrow> asm_ok (snd (snd (read_loop cs bp)))"
proof (induction cs arbitrary: bp)
  case Nil
  then show ?case by simp
next
  case (Cons c cs)
  obtain buf p where bp: "bp = (buf, p)" by (cases bp)
  obtain r bp' where ob: "on_byte c (buf, p) = (r, bp')" by (cases "on_byte c (buf, p)")
  have ok': "asm_ok bp'" using on_byte_ok[of buf p c] Cons.prems by (simp add: bp ob)
  show ?case
  proof (cases r)
    case None
    then show ?thesis using Cons.IH[OF ok'] Cons.prems by (simp add: bp ob)
  next
    case (Some line)
    then show ?thesis using ok' Cons.prems by (simp add: bp ob)
  qed
qed

lemma read_loop_some:
  "asm_ok bp \<Longrightarrow> read_loop cs bp = (Some line, rest, bp') \<Longrightarrow>
   strcpy line \<noteq> [] \<and> bp' = (line, 0)"
proof (induction cs arbitrary: bp)
  case Nil
  then show ?case by simp
next
  case (Cons c cs)
  obtain buf p where bp: "bp = (buf, p)" by (cases bp)
  obtain r bq where ob: "on_byte c (buf, p) = (r, bq)" by (cases "on_byte c (buf, p)")
  have ok': "asm_ok bq" using on_byte_ok[of buf p c] Cons.prems(1) by (simp add: bp ob)
  have nt: "c \<noteq> PICO_ERROR_TIMEOUT" using Cons.prems(2) by (auto split: if_splits)
  show ?case
  proof (cases r)
    case None
    then have "read_loop cs bq = (Some line, rest, bp')"
      using Cons.prems(2) nt by (simp add: bp ob)
    from Cons.IH[OF ok' this] show ?thesis .
  next
    case (Some l)
    then have "l = line" "bq = bp'" using Cons.prems(2) nt by (simp_all add: bp ob)
    then have "on_byte c (buf, p) = (Some line, bp')" using ob Some by simp
    moreover have "asm_ok (buf, p)" using Cons.prems(1) by (simp add: bp)
    ultimately show ?thesis using on_byte_emits_nonempty by blast
  qed
qed

lemma read_loop_partial:
  assumes "asm_ok (buf, p)" "\<forall>x \<in> set xs. printable x"
  shows "\<exists>buf'. read_loop xs (buf, p) = (None, [], buf', min 255 (p + length xs)) \<and>
                length buf' = 256 \<and>
                take (min 255 (p + length xs)) buf' = take 255 (take p buf @ map char_of xs)"
  using assms
proof (induction xs arbitrary: buf p)
  case Nil
  then have "length buf = 256" "p \<le> 255" by (simp_all add: asm_ok_def)
  then show ?case by (simp add: min_def)
next
  case (Cons x xs)
  then have l: "length buf = 256" and p: "p \<le> 255" by (simp_all add: asm_ok_def)
  from Cons.prems have px: "printable x" and pxs: "\<forall>x \<in> set xs. printable x" by simp_all
  have t: "x \<noteq> PICO_ERROR_TIMEOUT" using px by (auto simp: PICO_ERROR_TIMEOUT_def printable_def)
  show ?case
  proof (cases "p < 255")
    case True
    let ?buf = "buf[p := char_of x]"
    have ok: "asm_ok (?buf, p + 1)"
      using on_byte_ok[OF Cons.prems(1), of x] by (simp add: on_byte_append[OF px True])
    have tk: "take (p + 1) ?buf = take p buf @ [char_of x]"
      using take_Suc_update[of p buf] l True by simp
    have eq: "take 255 (take (p + 1) ?buf @ map char_of xs) =
              take 255 (take p buf @ map char_of (x # xs))"
      by (simp only: tk append_assoc append_Cons append_Nil list.map)
    have m: "min 255 (p + 1 + length xs) = min 255 (p + length (x # xs))" by simp
    have step: "read_loop (x # xs) (buf, p) = read_loop xs (?buf, p + 1)"
      using t by (simp add: on_byte_append[OF px True])
    from Cons.IH[OF ok pxs] show ?thesis unfolding step eq m .
  next
    case False
    then have p255: "p = 255" using p by simp
    have nn: "x \<noteq> 10" "x \<noteq> 13" using px by (auto simp: printable_def)
    have ob: "on_byte x (buf, p) = (None, buf, p)"
      using nn False by (intro on_byte_discard) simp_all
    have eq: "take 255 (take p buf @ map char_of xs) =
              take 255 (take p buf @ map char_of (x # xs))"
      using l p255 by simp
    have m: "min 255 (p + length xs) = min 255 (p + length (x # xs))" using p255 by simp
    have step: "read_loop (x # xs) (buf, p) = read_loop xs (buf, p)"
      using t by (simp add: ob)
    from Cons.IH[OF Cons.prems(1) pxs] show ?thesis unfolding step eq m .
  qed
qed


lemma readSerialLine_ok:
  assumes "asm_ok (buffer w, pos w)"
  shows "asm_ok (buffer (snd (readSerialLine w)), pos (snd (readSerialLine w)))"
proof -
  obtain r rest buf p where rl: "read_loop (rx w) (buffer w, pos w) = (r, rest, buf, p)"
    by (cases "read_loop (rx w) (buffer w, pos w)") auto
  have "asm_ok (buf, p)" using read_loop_ok[OF assms, of "rx w"] by (simp add: rl)
  then show ?thesis by (simp add: readSerialLine_def rl)
qed

lemma readSerialLine_some:
  assumes "asm_ok (buffer w, pos w)" "readSerialLine w = (Some line, w')"
  shows "strcpy line \<noteq> [] \<and> buffer w' = line \<and> pos w' = 0"
proof -
  obtain r rest buf p where rl: "read_loop (rx w) (buffer w, pos w) = (r, rest, buf, p)"
    by (cases "read_loop (rx w) (buffer w, pos w)") auto
  from assms(2) have r: "r = Some line" and w': "w' = w\<lparr>rx := rest, buffer := buf, pos := p\<rparr>"
    by (simp_all add: readSerialLine_def rl)
  from read_loop_some[OF assms(1) rl[unfolded r]] show ?thesis by (simp add: w')
qed

subsection \<open>LED helpers, initialisation and the drain loop\<close>

lemma set_rest_off_fields [simp]:
  "currentPositions (set_rest_off is w) = currentPositions w"
  "buffer (set_rest_off is w) = buffer w"
  "pos (set_rest_off is w) = pos w"
  "command_led_off_time (set_rest_off is w) = command_led_off_time w"
  "command_led_active (set_rest_off is w) = command_led_active w"
  "rx (set_rest_off is w) = rx w"
  "button (set_rest_off is w) = button w"
  "clock (set_rest_off is w) = clock w"
  "trace (set_rest_off is w) = trace w @ map (\<lambda>i. LedRGB i 0 0 0) is"
  "accesses (set_rest_off is w) = accesses w"
  by (induction "is" arbitrary: w; simp)+

lemma setDefaultLEDs_fields [simp]:
  "currentPositions (setDefaultLEDs w) = currentPositions w"
  "buffer (setDefaultLEDs w) = buffer w"
  "pos (setDefaultLEDs w) = pos w"
  "command_led_off_time (setDefaultLEDs w) = command_led_off_time w"
  "command_led_active (setDefaultLEDs w) = command_led_active w"
  "rx (setDefaultLEDs w) = rx w"
  "button (setDefaultLEDs w) = button w"
  "clock (setDefaultLEDs w) = clock w"
  "trace (setDefaultLEDs w) =
     trace w @ [LedClear, LedRGB READY_LED 0 64 0, LedRGB COMMAND_LED 0 0 0] @
       map (\<lambda>i. LedRGB i 0 0 0) [2..<NUM_LEDS]"
  "accesses (setDefaultLEDs w) = accesses w"
  by (simp_all add: setDefaultLEDs_def)

lemma flash_all_fields [simp]:
  "currentPositions (flash_all is w) = currentPositions w"
  "buffer (flash_all is w) = buffer w"
  "pos (flash_all is w) = pos w"
  "command_led_off_time (flash_all is w) = command_led_off_time w"
  "command_led_active (flash_all is w) = command_led_active w"
  "rx (flash_all is w) = rx w"
  "button (flash_all is w) = button w"
  "clock (flash_all is w) = clock w"
  "trace (flash_all is w) =
     trace w @ map (\<lambda>i. LedHSV i (fl32 (fl32 (of_nat i) / fl32 (of_nat NUM_LEDS))) 1 BRIGHTNESS) is"
  "accesses (flash_all is w) = accesses w"
  by (induction "is" arbitrary: w; simp)+

lemma animation_pass_fields [simp]:
  "currentPositions (animation_pass w) = currentPositions w"
  "buffer (animation_pass w) = buffer w"
  "pos (animation_pass w) = pos w"
  "command_led_off_time (animation_pass w) = command_led_off_time w"
  "command_led_active (animation_pass w) = command_led_active w"
  "rx (animation_pass w) = rx w"
  "button (animation_pass w) = button w"
  "clock (animation_pass w) = clock w + 400000"
  "trace (animation_pass w) =
     trace w @ map (\<lambda>i. LedHSV i (fl32 (fl32 (of_nat i) / fl32 (of_nat NUM_LEDS))) 1 BRIGHTNESS)
                 [0..<NUM_LEDS] @ [SleepMs 200, LedClear, SleepMs 200]"
  "accesses (animation_pass w) = accesses w"
  by (simp_all add: animation_pass_def)

lemma ledWelcomeAnimation_fields [simp]:
  "currentPositions (ledWelcomeAnimation w) = currentPositions w"
  "buffer (ledWelcomeAnimation w) = buffer w"
  "pos (ledWelcomeAnimation w) = pos w"
  "command_led_off_time (ledWelcomeAnimation w) = command_led_off_time w"
  "command_led_active (ledWelcomeAnimation w) = command_led_active w"
  "rx (ledWelcomeAnimation w) = rx w"
  "button (ledWelcomeAnimation w) = button w"
  "clock (ledWelcomeAnimation w) = clock w + 800000"
  "accesses (ledWelcomeAnimation w) = accesses w"
  by (simp_all add: ledWelcomeAnimation_def)

lemma on_line_fields [simp]:
  "buffer (on_line b line w) = buffer w"
  "pos (on_line b line w) = pos w"
  "rx (on_line b line w) = rx w"
  "button (on_line b line w) = button w"
  "clock (on_line b line w) = clock w"
  by (simp_all add: on_line_def Let_def)

lemma trace_fold_perform: "\<exists>evs. trace (fold perform os w) = trace w @ evs"
proof (induction os arbitrary: w)
  case Nil
  show ?case by simp
next
  case (Cons oc os)
  obtain evs where "trace (fold perform os (perform oc w)) = trace (perform oc w) @ evs"
    using Cons by blast
  then show ?case by (cases oc) simp_all
qed

lemma on_line_5_999:
  "on_line WithLeds ''5,999'' w =
     (emit (Printf (Invalid 5 999)) (flashCommandLED w))
       \<lparr>command_led_off_time := clock w + 150000, command_led_active := True\<rparr>"
proof -
  have s5: "strcpy ''5,999'' = ''5,999''" by (simp add: strcpy_def)
  show ?thesis
    by (simp add: on_line_def Let_def handleCommands_tokens s5 tokens_5_999 handle_5_999
        make_timeout_time_ms_def get_absolute_time_def)
qed

lemma init_servos_trace:
  "trace (init_servos ss w) =
   trace w @ concat (map (\<lambda>s. [ServoNew s, ServoInit s, CalRef s, CalFirst s (- 140), CalLast s 140]) ss)"
proof (induction ss arbitrary: w)
  case Nil
  show ?case by simp
next
  case (Cons s ss)
  have "fl32 (of_int MIN_ANGLE) = - 140" "fl32 (of_int MAX_ANGLE) = 140"
    using fl32_of_int[of "- 140"] fl32_of_int[of 140] by (simp_all add: MIN_ANGLE_def MAX_ANGLE_def)
  then show ?case by (simp add: Cons init_servo_def)
qed

lemma init_servos_frame [simp]:
  "buffer (init_servos ss w) = buffer w"
  "pos (init_servos ss w) = pos w"
  "command_led_off_time (init_servos ss w) = command_led_off_time w"
  "command_led_active (init_servos ss w) = command_led_active w"
  "rx (init_servos ss w) = rx w"
  "button (init_servos ss w) = button w"
  "clock (init_servos ss w) = clock w"
  by (induction ss arbitrary: w; simp add: init_servo_def)+

lemma init_servos_positions:
  "currentPositions (init_servos ss w) = fold (\<lambda>s ps. ps[s := 0]) ss (currentPositions w)"
  by (induction ss arbitrary: w) (simp_all add: init_servo_def)

lemma zero_prefix:
  "n \<le> length ps \<Longrightarrow> fold (\<lambda>s ps. ps[s := (0::int)]) [0..<n] ps = replicate n 0 @ drop n ps"
proof (induction n)
  case 0
  show ?case by simp
next
  case (Suc n)
  then have n: "n < length ps" by simp
  have "fold (\<lambda>s ps. ps[s := 0]) [0..<Suc n] ps = (replicate n 0 @ drop n ps)[n := 0]"
    using Suc by simp
  also have "\<dots> = replicate n 0 @ (drop n ps)[0 := 0]"
    by (simp add: list_update_append)
  also have "(drop n ps)[0 := 0] = 0 # drop (Suc n) ps"
    using n by (metis Cons_nth_drop_Suc list_update_code(2))
  finally show ?case by (simp add: replicate_append_same)
qed

lemma enable_servos_fields [simp]:
  "currentPositions (enable_servos ss w) = currentPositions w"
  "buffer (enable_servos ss w) = buffer w"
  "pos (enable_servos ss w) = pos w"
  "command_led_off_time (enable_servos ss w) = command_led_off_time w"
  "command_led_active (enable_servos ss w) = command_led_active w"
  "rx (enable_servos ss w) = rx w"
  "button (enable_servos ss w) = button w"
  "clock (enable_servos ss w) = clock w"
  "trace (enable_servos ss w) = trace w @ map ServoEnable ss"
  by (induction ss arbitrary: w; simp)+

lemma setup_messages_fields [simp]:
  "currentPositions (setup_messages b w) = currentPositions w"
  "buffer (setup_messages b w) = buffer w"
  "pos (setup_messages b w) = pos w"
  "command_led_off_time (setup_messages b w) = command_led_off_time w"
  "command_led_active (setup_messages b w) = command_led_active w"
  "rx (setup_messages b w) = rx w"
  "button (setup_messages b w) = button w"
  "clock (setup_messages b w) = clock w"
  "trace (setup_messages b w) =
     trace w @ [Printf (Initialized NUM_SERVOS), Printf (RangeMsg MIN_ANGLE MAX_ANGLE),
                CalQuery 0, CalQuery 0, Printf CalibrationMsg] @
       (if b = WithLeds then [Printf LedInfoMsg] else []) @ [Printf ReadyMsg]"
  by (simp_all add: setup_messages_def Let_def)

lemma setup_fn_trace: "trace (setup_fn b w) = trace w @ setup_calls b"
  by (simp add: setup_fn_def Let_def init_servos_trace setup_calls_def)

lemma setup_fn_positions:
  "length (currentPositions w) = NUM_SERVOS \<Longrightarrow>
   currentPositions (setup_fn b w) = replicate NUM_SERVOS 0"
  by (simp add: setup_fn_def Let_def init_servos_positions zero_prefix)

lemma setup_calls_no_pulse: "ServoPulse s p \<notin> set (setup_calls b)"
  by (auto simp: setup_calls_def)

lemma count_list_concat_map:
  "count_list (concat (map g ss)) e = sum_list (map (\<lambda>s. count_list (g s) e) ss)"
  by (induction ss) simp_all

lemma sum_indicator_upt:
  "sum_list (map (\<lambda>i. if i = s then 1 else 0) [0..<n]) = (if s < n then 1 else (0::nat))"
  by (induction n) auto

lemma count_list_upt: "count_list [0..<n] s = (if s < n then 1 else 0)"
  by (induction n) auto

lemma count_list_map_enable: "count_list (map ServoEnable ss) (ServoEnable s) = count_list ss s"
  by (induction ss) auto

lemma count_list_absent: "e \<notin> set xs \<Longrightarrow> count_list xs e = 0"
  by (simp add: count_list_0_iff)

lemma setup_calls_count:
  assumes "s < NUM_SERVOS"
  shows "count_list (setup_calls b) (CalFirst s (- 140)) = 1"
    and "count_list (setup_calls b) (CalLast s 140) = 1"
    and "count_list (setup_calls b) (ServoEnable s) = 1"
proof -
  have a: "count_list (map (\<lambda>i. LedRGB i 0 0 0) [2..<NUM_LEDS]) e = 0"
    if "\<And>i r g b. e \<noteq> LedRGB i r g b" for e
    using that by (intro count_list_absent) auto
  have b1: "count_list (map ServoEnable [0..<NUM_SERVOS]) (CalFirst s (- 140)) = 0"
           "count_list (map ServoEnable [0..<NUM_SERVOS]) (CalLast s 140) = 0"
    by (intro count_list_absent; auto)+
  have blk:
    "count_list [ServoNew i, ServoInit i, CalRef i, CalFirst i (- 140), CalLast i 140] (CalFirst s (- 140)) =
       (if i = s then 1 else 0)"
    "count_list [ServoNew i, ServoInit i, CalRef i, CalFirst i (- 140), CalLast i 140] (CalLast s 140) =
       (if i = s then 1 else 0)"
    "count_list [ServoNew i, ServoInit i, CalRef i, CalFirst i (- 140), CalLast i 140] (ServoEnable s) = 0"
    for i by auto
  have c: "count_list (concat (map (\<lambda>s. [ServoNew s, ServoInit s, CalRef s, CalFirst s (- 140), CalLast s 140])
                 [0..<NUM_SERVOS])) (CalFirst s (- 140)) = 1"
          "count_list (concat (map (\<lambda>s. [ServoNew s, ServoInit s, CalRef s, CalFirst s (- 140), CalLast s 140])
                 [0..<NUM_SERVOS])) (CalLast s 140) = 1"
          "count_list (concat (map (\<lambda>s. [ServoNew s, ServoInit s, CalRef s, CalFirst s (- 140), CalLast s 140])
                 [0..<NUM_SERVOS])) (ServoEnable s) = 0"
    unfolding count_list_concat_map blk sum_indicator_upt using assms by simp_all
  show "count_list (setup_calls b) (CalFirst s (- 140)) = 1"
    by (simp add: setup_calls_def c a b1)
  show "count_list (setup_calls b) (CalLast s 140) = 1"
    by (simp add: setup_calls_def c a b1)
  show "count_list (setup_calls b) (ServoEnable s) = 1"
    using assms
    by (simp add: setup_calls_def c a count_list_map_enable count_list_upt)
qed

lemma readSerialLine_empty: "rx w = [] \<Longrightarrow> readSerialLine w = (None, w)"
  by (simp add: readSerialLine_def)

lemma readSerialLine_line:
  assumes "rx w = xs @ c # rest" "\<forall>x \<in> set xs. printable x" "xs \<noteq> []" "c = 10 \<or> c = 13"
      and "pos w = 0" "length (buffer w) = 256"
  shows "\<exists>line. readSerialLine w = (Some line, w\<lparr>rx := rest, buffer := line, pos := 0\<rparr>) \<and>
                length line = 256 \<and> strcpy line = take 255 (map char_of xs)"
proof -
  have ok: "asm_ok (buffer w, 0)" using assms(6) by (simp add: asm_ok_def)
  from read_loop_line[OF ok assms(2) assms(4), of rest] assms(3)
  obtain line where "read_loop (xs @ c # rest) (buffer w, 0) = (Some line, rest, line, 0)"
    "length line = 256" "strcpy line = take 255 (map char_of xs)" by auto
  then show ?thesis by (simp add: readSerialLine_def assms(1) assms(5))
qed

lemma drain_count:
  assumes "drain b i had w = (i', had', w')" "i \<le> 100"
  shows "i \<le> i' \<and> i' \<le> 100 \<and> (had' \<longleftrightarrow> had \<or> i < i') \<and>
         (i' < 100 \<longrightarrow> (\<exists>u. take_lines b (i' - i) w = Some u \<and> readSerialLine u = (None, w'))) \<and>
         (i' = 100 \<longrightarrow> take_lines b (100 - i) w = Some w')"
  using assms
proof (induction b i had w rule: drain.induct)
  case (1 b i had_input w)
  show ?case
  proof (cases "i < 100")
    case False
    with 1(2,3) show ?thesis by (simp add: drain.simps[of b i had_input w])
  next
    case True
    obtain r w1 where rs: "readSerialLine w = (r, w1)" by (cases "readSerialLine w")
    show ?thesis
    proof (cases r)
      case None
      with 1(2) True rs have "i' = i" "had' = had_input" "w' = w1"
        by (simp_all add: drain.simps[of b i had_input w])
      then show ?thesis using True rs None by simp
    next
      case (Some command)
      with 1(2) True rs
      have d: "drain b (i + 1) True (on_line b command w1) = (i', had', w')"
        by (simp add: drain.simps[of b i had_input w])
      have le: "i + 1 \<le> 100" using True by simp
      note ih = 1(1)[OF True rs[symmetric] Some d le]
      have "i + 1 \<le> i'" using ih by blast
      then have s1: "i' - i = Suc (i' - (i + 1))" by linarith
      have s2: "100 - i = Suc (100 - (i + 1))" using True by simp
      have tl: "take_lines b (Suc n) w = take_lines b n (on_line b command w1)" for n
        using rs Some by simp
      show ?thesis using ih unfolding s1 s2 tl by auto
    qed
  qed
qed


lemma take_lines_burst:
  assumes "rx w = concat (map (\<lambda>l. l @ [10]) ls) @ rest"
      and "\<forall>l \<in> set ls. l \<noteq> [] \<and> (\<forall>x \<in> set l. printable x)"
      and "n \<le> length ls" "pos w = 0" "length (buffer w) = 256"
  shows "\<exists>w'. take_lines b n w = Some w' \<and>
              rx w' = concat (map (\<lambda>l. l @ [10]) (drop n ls)) @ rest \<and>
              pos w' = 0 \<and> length (buffer w') = 256"
  using assms
proof (induction n arbitrary: w ls)
  case 0
  then show ?case by simp
next
  case (Suc n)
  then obtain l ls' where ls: "ls = l # ls'" by (cases ls) auto
  with Suc.prems have l: "l \<noteq> []" "\<forall>x \<in> set l. printable x"
    and ls': "\<forall>l \<in> set ls'. l \<noteq> [] \<and> (\<forall>x \<in> set l. printable x)" and n: "n \<le> length ls'"
    by auto
  have r: "rx w = l @ 10 # (concat (map (\<lambda>l. l @ [10]) ls') @ rest)"
    using Suc.prems(1) ls by simp
  from readSerialLine_line[OF r l(2) l(1) _ Suc.prems(4) Suc.prems(5)]
  obtain line where
    rd: "readSerialLine w =
           (Some line, w\<lparr>rx := concat (map (\<lambda>l. l @ [10]) ls') @ rest, buffer := line, pos := 0\<rparr>)"
    and len: "length line = 256" by auto
  let ?w2 = "on_line b line (w\<lparr>rx := concat (map (\<lambda>l. l @ [10]) ls') @ rest, buffer := line, pos := 0\<rparr>)"
  have "\<exists>w'. take_lines b n ?w2 = Some w' \<and>
              rx w' = concat (map (\<lambda>l. l @ [10]) (drop n ls')) @ rest \<and>
              pos w' = 0 \<and> length (buffer w') = 256"
    by (rule Suc.IH[OF _ ls' n]) (simp_all add: len)
  then show ?case by (simp add: rd ls)
qed

lemma drain_burst:
  assumes "rx u = concat (map (\<lambda>l. l @ [10]) ls) @ rest"
      and "\<forall>l \<in> set ls. l \<noteq> [] \<and> (\<forall>x \<in> set l. printable x)"
      and "100 \<le> length ls" "pos u = 0" "length (buffer u) = 256"
  shows "\<exists>u'. drain b 0 False u = (100, True, u') \<and>
              rx u' = concat (map (\<lambda>l. l @ [10]) (drop 100 ls)) @ rest"
proof -
  obtain i had u' where d: "drain b 0 False u = (i, had, u')" by (cases "drain b 0 False u")
  note c = drain_count[OF d]
  have i100: "i = 100"
  proof (rule ccontr)
    assume "i \<noteq> 100"
    then have lt: "i < 100" using c by simp
    then obtain v where v: "take_lines b i u = Some v" "readSerialLine v = (None, u')"
      using c by auto
    have "i \<le> length ls" using lt assms(3) by simp
    from take_lines_burst[OF assms(1,2) this assms(4,5), of b] v(1)
    have rv: "rx v = concat (map (\<lambda>l. l @ [10]) (drop i ls)) @ rest"
      and pv: "pos v = 0" and bv: "length (buffer v) = 256" by auto
    obtain l ls' where dl: "drop i ls = l # ls'"
      using lt assms(3) by (cases "drop i ls") auto
    then have "l \<in> set ls" by (metis in_set_dropD list.set_intros(1))
    with assms(2) have l: "l \<noteq> []" "\<forall>x \<in> set l. printable x" by auto
    have r: "rx v = l @ 10 # (concat (map (\<lambda>l. l @ [10]) ls') @ rest)"
      using rv dl by simp
    from readSerialLine_line[OF r l(2) l(1) _ pv bv] v(2) show False by auto
  qed
  then have "take_lines b 100 u = Some u'" and "had" using c by auto
  moreover from take_lines_burst[OF assms(1,2,3,4,5), of b]
  obtain w' where "take_lines b 100 u = Some w'"
    "rx w' = concat (map (\<lambda>l. l @ [10]) (drop 100 ls)) @ rest" by auto
  ultimately show ?thesis using d i100 by auto
qed

lemma poll_button_pressed:
  "button w = True # presses \<Longrightarrow>
   poll_button w = ledWelcomeAnimation (emit (Printf ButtonPressed) (w\<lparr>button := presses\<rparr>))"
  by (simp add: poll_button_def user_sw_read_def)

lemma on_line_positions:
  "currentPositions (on_line b line w) =
   fold (\<lambda>(c, a) ps. ps[nat c := a]) (spec_batch (spec_parse (strcpy line))) (currentPositions w)"
  by (simp add: on_line_def Let_def handleCommands_fold positions_fold)

lemma parse_0_10: "spec_parse ''0,10'' = [Accepted 0 10]"
  by (simp add: spec_parse_def spec_segments_def spec_outcome_def atoi_def isspace_def
        isdigit_def NUM_SERVOS_def MIN_ANGLE_def MAX_ANGLE_def)

section \<open>The claims\<close>

text \<open>
  C1. For every integer angle \<open>a\<close> with \<open>-140 \<le> a \<le> 140\<close> the pulse width is
  \<open>1500.0 + a * 500.0 / 140.0\<close>, evaluated in single precision as the source writes
  it: the conversion of \<open>a\<close> and the product \<open>a * 500\<close> are exact, so the value is the
  exact quotient rounded once, added to 1500 and rounded once more. It lies within
  \<open>0.0001\<close> of the real number \<open>1500 + a * 500 / 140\<close> and equals it whenever 7
  divides \<open>a\<close>; in particular \<open>pulse_us (-140) = 1000\<close>, \<open>pulse_us 0 = 1500\<close> and
  \<open>pulse_us 140 = 2000\<close>.
\<close>
theorem pulse_us_formula:
  assumes "MIN_ANGLE \<le> a" and "a \<le> MAX_ANGLE"
  shows "pulse_us a = fl32 (1500 + fl32 (of_int a * 500 / 140)) \<and>
         \<bar>pulse_us a - (1500 + of_int a * 500 / 140)\<bar> \<le> 1 / 10000 \<and>
         (7 dvd a \<longrightarrow> pulse_us a = 1500 + of_int a * 500 / 140) \<and>
         pulse_us (- 140) = 1000 \<and> pulse_us 0 = 1500 \<and> pulse_us 140 = 2000"
proof -
  have r: "- 140 \<le> a" "a \<le> 140" using assms by (simp_all add: MIN_ANGLE_def MAX_ANGLE_def)
  show ?thesis
    using pulse_us_two_roundings[OF r] pulse_us_close[OF r] pulse_us_exact_multiples[OF r]
      pulse_us_endpoints
    by blast
qed

theorem pulse_us_formula_witness:
  "MIN_ANGLE \<le> 7 \<and> 7 \<le> MAX_ANGLE \<and> pulse_us 7 = 1525 \<and>
   pulse_us (- 140) = 1000 \<and> pulse_us 0 = 1500 \<and> pulse_us 140 = 2000"
proof -
  have h: "MIN_ANGLE \<le> 7" "7 \<le> MAX_ANGLE" by (simp_all add: MIN_ANGLE_def MAX_ANGLE_def)
  note th = pulse_us_formula[OF h]
  have "pulse_us 7 = 1500 + of_int 7 * 500 / 140" using th by simp
  then have v: "pulse_us 7 = 1525" by simp
  show ?thesis using th h v by simp
qed

text \<open>
  C2. A segment whose converted channel lies outside \<open>[0, 18)\<close> or whose converted angle
  lies outside \<open>[-140, 140]\<close> is rejected: the loop body prints the "Invalid" diagnostic
  and does nothing else (no pulse, no store into \<open>currentPositions\<close>, no array
  subscript), and the segments before and after it in the line are handled as usual.
  Processing \<open>5,999\<close> leaves \<open>currentPositions\<close> as it was, and so does \<open>99,0\<close>,
  which in the plain build only prints the diagnostic.
\<close>
theorem out_of_range_rejected:
  assumes "tokens (strcpy line) = pre @ seg # post"
      and "strchr_split seg = Some (left, right)"
      and "atoi left < 0 \<or> int NUM_SERVOS \<le> atoi left \<or>
           atoi right < MIN_ANGLE \<or> MAX_ANGLE < atoi right"
  shows "handleCommands b line w =
           fold handle_token post
             (emit (Printf (Invalid (atoi left) (atoi right)))
               (fold handle_token pre (if b = WithLeds then flashCommandLED w else w))) \<and>
         handle_token seg u = emit (Printf (Invalid (atoi left) (atoi right))) u \<and>
         currentPositions (handle_token seg u) = currentPositions u \<and>
         trace (handle_token seg u) = trace u @ [Printf (Invalid (atoi left) (atoi right))] \<and>
         accesses (handle_token seg u) = accesses u \<and>
         currentPositions (handleCommands b ''5,999'' w) = currentPositions w \<and>
         handleCommands Plain ''99,0'' w = emit (Printf (Invalid 99 0)) w \<and>
         currentPositions (handleCommands b ''99,0'' w) = currentPositions w"
proof -
  have nr: "\<not> in_range (atoi left) (atoi right)"
    using assms(3) by (auto simp: in_range_def)
  note rej = handle_token_reject[OF assms(2) nr]
  have 1: "handleCommands b line w =
           fold handle_token post
             (emit (Printf (Invalid (atoi left) (atoi right)))
               (fold handle_token pre (if b = WithLeds then flashCommandLED w else w)))"
    unfolding handleCommands_tokens assms(1) by (simp add: rej)
  have s5: "strcpy ''5,999'' = ''5,999''" and s9: "strcpy ''99,0'' = ''99,0''"
    by (simp_all add: strcpy_def)
  have 2: "currentPositions (handleCommands b ''5,999'' w) = currentPositions w"
    unfolding handleCommands_tokens s5 tokens_5_999 by (simp add: handle_5_999)
  have 3: "handleCommands Plain ''99,0'' w = emit (Printf (Invalid 99 0)) w"
    unfolding handleCommands_tokens s9 tokens_99_0 by (simp add: handle_99_0)
  have 4: "currentPositions (handleCommands b ''99,0'' w) = currentPositions w"
    unfolding handleCommands_tokens s9 tokens_99_0 by (simp add: handle_99_0)
  show ?thesis unfolding rej using 1 2 3 4 by simp
qed

theorem out_of_range_rejected_witness:
  "handleCommands Plain ''0,10;5,999;1,-20'' (power_on [] [] 0) =
     apply_command 1 (- 20) (emit (Printf (Invalid 5 999)) (apply_command 0 10 (power_on [] [] 0))) \<and>
   currentPositions (handleCommands Plain ''0,10;5,999;1,-20'' (power_on [] [] 0)) ! 5 = 0"
proof -
  have s: "strcpy ''0,10;5,999;1,-20'' = ''0,10;5,999;1,-20''" by (simp add: strcpy_def)
  have t: "tokens (strcpy ''0,10;5,999;1,-20'') = [''0,10''] @ ''5,999'' # [''1,-20'']"
    unfolding s by (simp add: tokens_split)
  have c: "strchr_split ''5,999'' = Some (''5'', ''999'')" by (simp add: strchr_split_def)
  have v: "atoi ''5'' = 5" "atoi ''999'' = 999"
    by (simp_all add: atoi_def isspace_def isdigit_def)
  have r: "atoi ''5'' < 0 \<or> int NUM_SERVOS \<le> atoi ''5'' \<or>
           atoi ''999'' < MIN_ANGLE \<or> MAX_ANGLE < atoi ''999''"
    unfolding v by (simp add: MAX_ANGLE_def)
  have h: "handle_token ''0,10'' u = apply_command 0 10 u"
          "handle_token ''1,-20'' u = apply_command 1 (- 20) u" for u
    by (simp_all add: handle_token_def strchr_split_def atoi_def isspace_def isdigit_def
        in_range_def NUM_SERVOS_def MIN_ANGLE_def MAX_ANGLE_def)
  note th = out_of_range_rejected[OF t c r, of Plain "power_on [] [] 0"]
  have e: "handleCommands Plain ''0,10;5,999;1,-20'' (power_on [] [] 0) =
     apply_command 1 (- 20) (emit (Printf (Invalid 5 999)) (apply_command 0 10 (power_on [] [] 0)))"
    using conjunct1[OF th] unfolding v by (simp add: h)
  show ?thesis unfolding e by (simp add: power_on_def zeros18)
qed

text \<open>
  C3. \<open>handleCommands\<close> treats a line as the specification's parser describes it:
  the line is split on \<open>;\<close>, empty segments and segments without a comma are skipped,
  and the remaining segments are handled in the order met, each accepted or rejected by
  its range check. For \<open>0,10;1,-20;\<close> the accepted batch is \<open>[(0,10), (1,-20)]\<close>; the
  empty segment after the last \<open>;\<close> adds nothing.
\<close>
theorem segments_in_order:
  "handleCommands b line w =
     fold perform (spec_parse (strcpy line)) (if b = WithLeds then flashCommandLED w else w) \<and>
   spec_parse ''0,10;1,-20;'' = [Accepted 0 10, Accepted 1 (- 20)] \<and>
   spec_batch (spec_parse ''0,10;1,-20;'') = [(0, 10), (1, - 20)]"
proof -
  have ex: "spec_parse ''0,10;1,-20;'' = [Accepted 0 10, Accepted 1 (- 20)]"
    by (simp add: spec_parse_def spec_segments_def spec_outcome_def atoi_def isspace_def
        isdigit_def NUM_SERVOS_def MIN_ANGLE_def MAX_ANGLE_def)
  show ?thesis unfolding ex by (simp add: handleCommands_fold)
qed

theorem segments_in_order_witness:
  "handleCommands Plain ''0,10;1,-20;'' (power_on [] [] 0) =
     apply_command 1 (- 20) (apply_command 0 10 (power_on [] [] 0)) \<and>
   currentPositions (handleCommands Plain ''0,10;1,-20;'' (power_on [] [] 0)) =
     [10, - 20, 0, 0, 0, 0, 0, 0, 0, 0, 0, 0, 0, 0, 0, 0, 0, 0]"
proof -
  have s: "strcpy ''0,10;1,-20;'' = ''0,10;1,-20;''" by (simp add: strcpy_def)
  have "handleCommands Plain ''0,10;1,-20;'' (power_on [] [] 0) =
     apply_command 1 (- 20) (apply_command 0 10 (power_on [] [] 0))"
    using segments_in_order[of Plain "''0,10;1,-20;''" "power_on [] [] 0"] unfolding s by simp
  then show ?thesis by (simp add: power_on_def zeros18)
qed


text \<open>
  C4. The accepted commands of a line are applied in the order met: the final
  \<open>currentPositions\<close> is the batch folded over the old one. When the last accepted
  segment for channel \<open>c\<close> carries angle \<open>a\<close>, then afterwards \<open>currentPositions[c] = a\<close>
  and the last pulse sent to servo \<open>c\<close> is \<open>pulse_us a\<close>. After \<open>3,50;3,-50\<close>
  channel 3 stands at \<open>-50\<close>.
\<close>
theorem last_write_wins:
  assumes "length (currentPositions w) = NUM_SERVOS"
      and "spec_parse (strcpy line) = pre @ Accepted c a # post"
      and "\<forall>a'. Accepted c a' \<notin> set post"
  shows "currentPositions (handleCommands b line w) =
           fold (\<lambda>(c, a) ps. ps[nat c := a]) (spec_batch (spec_parse (strcpy line)))
             (currentPositions w) \<and>
         currentPositions (handleCommands b line w) ! nat c = a \<and>
         last_pulse (nat c) (trace (handleCommands b line w)) = Some (pulse_us a)"
proof -
  define w0 where "w0 = (if b = WithLeds then flashCommandLED w else w)"
  define w1 where "w1 = fold perform pre w0"
  have hc: "handleCommands b line w = fold perform post (apply_command c a w1)"
    by (simp add: handleCommands_fold assms(2) w0_def w1_def)
  have "Accepted c a \<in> set (spec_parse (strcpy line))" by (simp add: assms(2))
  then have r: "0 \<le> c" "nat c < NUM_SERVOS"
    using in_range_nat spec_parse_valid by blast+
  have nn: "\<forall>c' a'. Accepted c' a' \<in> set post \<longrightarrow> 0 \<le> c'"
  proof (intro allI impI)
    fix c' a' assume "Accepted c' a' \<in> set post"
    then have "Accepted c' a' \<in> set (spec_parse (strcpy line))" by (simp add: assms(2))
    then show "0 \<le> c'" using in_range_nat spec_parse_valid by blast
  qed
  have len: "length (currentPositions w1) = NUM_SERVOS"
    by (simp add: w1_def w0_def assms(1))
  have 1: "currentPositions (handleCommands b line w) ! nat c = a"
    unfolding hc positions_untouched[OF assms(3) nn r(1)] using r(2) len by simp
  have 2: "last_pulse (nat c) (trace (handleCommands b line w)) = Some (pulse_us a)"
    unfolding hc last_pulse_untouched[OF assms(3) nn r(1)] by (simp add: last_pulse_append)
  have 3: "currentPositions (handleCommands b line w) =
           fold (\<lambda>(c, a) ps. ps[nat c := a]) (spec_batch (spec_parse (strcpy line)))
             (currentPositions w)"
    by (simp add: handleCommands_fold positions_fold)
  show ?thesis using 1 2 3 by simp
qed

theorem last_write_wins_witness:
  "currentPositions (handleCommands Plain ''3,50;3,-50'' (power_on [] [] 0)) ! 3 = - 50 \<and>
   last_pulse 3 (trace (handleCommands Plain ''3,50;3,-50'' (power_on [] [] 0))) =
     Some (pulse_us (- 50))"
proof -
  have s: "strcpy ''3,50;3,-50'' = ''3,50;3,-50''" by (simp add: strcpy_def)
  have l: "length (currentPositions (power_on [] [] 0)) = NUM_SERVOS" by (simp add: power_on_def)
  have p: "spec_parse (strcpy ''3,50;3,-50'') = [Accepted 3 50] @ Accepted 3 (- 50) # []"
    unfolding s parse_3_50 by simp
  have n: "\<forall>a'. Accepted 3 a' \<notin> set []" by simp
  note t = last_write_wins[OF l p n, of Plain]
  show ?thesis using conjunct2[OF t] by simp
qed


text \<open>
  C10. Every subscript that \<open>handleCommands\<close> applies to \<open>servos\<close> or to
  \<open>currentPositions\<close> is an index \<open>i\<close> with \<open>0 \<le> i < 18\<close>: the subscripts recorded
  before the call stay as they are and every one added during the call is in bounds.
  The rejecting branch and a segment without a comma add no subscript at all, and the
  array keeps its length.
\<close>
theorem subscripts_in_bounds:
  "take (length (accesses w)) (accesses (handleCommands b line w)) = accesses w \<and>
   (\<forall>(a, i) \<in> set (drop (length (accesses w)) (accesses (handleCommands b line w))).
      0 \<le> i \<and> i < int NUM_SERVOS) \<and>
   (strchr_split seg = Some (left, right) \<and> \<not> in_range (atoi left) (atoi right)
      \<longrightarrow> accesses (handle_token seg u) = accesses u) \<and>
   (strchr_split seg = None \<longrightarrow> accesses (handle_token seg u) = accesses u) \<and>
   length (currentPositions (handleCommands b line w)) = length (currentPositions w)"
proof -
  define w0 where "w0 = (if b = WithLeds then flashCommandLED w else w)"
  have a0: "accesses w0 = accesses w" by (simp add: w0_def)
  have "\<forall>c a. Accepted c a \<in> set (spec_parse (strcpy line)) \<longrightarrow> in_range c a"
    using spec_parse_valid by blast
  from accesses_fold[OF this, of w0] obtain new where
    n: "accesses (fold perform (spec_parse (strcpy line)) w0) = accesses w0 @ new"
       "\<forall>(a, i) \<in> set new. 0 \<le> i \<and> i < int NUM_SERVOS" by blast
  have hc: "accesses (handleCommands b line w) = accesses w @ new"
    using n(1) by (simp add: handleCommands_fold w0_def a0[unfolded w0_def])
  have 1: "take (length (accesses w)) (accesses (handleCommands b line w)) = accesses w"
    unfolding hc by simp
  have 2: "\<forall>(a, i) \<in> set (drop (length (accesses w)) (accesses (handleCommands b line w))).
      0 \<le> i \<and> i < int NUM_SERVOS"
    unfolding hc using n(2) by simp
  have 3: "strchr_split seg = Some (left, right) \<and> \<not> in_range (atoi left) (atoi right)
      \<longrightarrow> accesses (handle_token seg u) = accesses u"
    by (simp add: handle_token_def)
  have 4: "strchr_split seg = None \<longrightarrow> accesses (handle_token seg u) = accesses u"
    by (simp add: handle_token_def)
  have 5: "length (currentPositions (handleCommands b line w)) = length (currentPositions w)"
    by (simp add: handleCommands_fold)
  show ?thesis using 1 2 3 4 5 by blast
qed

theorem subscripts_in_bounds_witness:
  "strchr_split ''18,5'' = Some (''18'', ''5'') \<and>
   \<not> in_range (atoi ''18'') (atoi ''5'') \<and>
   accesses (handle_token ''18,5'' (power_on [] [] 0)) = [] \<and>
   accesses (handleCommands Plain ''17,5;18,5;-1,5'' (power_on [] [] 0)) =
     [(Servos, 17), (Servos, 17), (CurrentPositions, 17), (Servos, 17)] \<and>
   length (currentPositions (handleCommands Plain ''17,5;18,5;-1,5'' (power_on [] [] 0))) = 18"
proof -
  have s: "strcpy ''17,5;18,5;-1,5'' = ''17,5;18,5;-1,5''" by (simp add: strcpy_def)
  have p: "spec_parse ''17,5;18,5;-1,5'' = [Accepted 17 5, Rejected 18 5, Rejected (- 1) 5]"
    by (simp add: spec_parse_def spec_segments_def spec_outcome_def atoi_def isspace_def
        isdigit_def NUM_SERVOS_def MIN_ANGLE_def MAX_ANGLE_def)
  have e: "accesses (handleCommands Plain ''17,5;18,5;-1,5'' (power_on [] [] 0)) =
     [(Servos, 17), (Servos, 17), (CurrentPositions, 17), (Servos, 17)]"
    by (simp add: handleCommands_fold s p) (simp add: power_on_def)
  have c: "strchr_split ''18,5'' = Some (''18'', ''5'')" by (simp add: strchr_split_def)
  have n: "\<not> in_range (atoi ''18'') (atoi ''5'')"
    by (simp add: atoi_def isspace_def isdigit_def in_range_def NUM_SERVOS_def)
  note th = subscripts_in_bounds[of "power_on [] [] 0" Plain "''17,5;18,5;-1,5''"
      "''18,5''" "''18''" "''5''" "power_on [] [] 0"]
  have a: "accesses (handle_token ''18,5'' (power_on [] [] 0)) = []"
    using th c n by (simp add: power_on_def)
  have l: "length (currentPositions (handleCommands Plain ''17,5;18,5;-1,5'' (power_on [] [] 0))) = 18"
    using th by (simp add: power_on_def NUM_SERVOS_def)
  show ?thesis using c n a e l by simp
qed

text \<open>
  C5. \<open>readSerialLine\<close>, called with its statics \<open>buffer\<close> and \<open>pos\<close> as an earlier call
  left them, treats the next byte \<open>c\<close> of the input as follows. A CR or LF with
  \<open>pos > 0\<close> makes the call return the buffer terminated at \<open>pos\<close>, whose text is the
  \<open>pos\<close> bytes accumulated (never empty), and sets \<open>pos\<close> to 0. A CR or LF with
  \<open>pos = 0\<close> is consumed and nothing else changes. A printable byte (32 to 126) with
  \<open>pos < 255\<close> is stored at \<open>pos\<close> and \<open>pos\<close> moves up by one. Any other byte (not
  printable, or \<open>pos = 255\<close>) is consumed and nothing else changes. With no byte
  waiting the call returns \<open>NULL\<close> and keeps the statics for the next call. After any
  call \<open>pos\<close> is at most 255, a returned line is never empty, and a run of printable
  bytes followed by CR or LF returns the accumulated text cut to its first 255 bytes.
\<close>
theorem line_assembler_step:
  assumes "asm_ok (buffer w, pos w)"
  shows "asm_ok (buffer (snd (readSerialLine w)), pos (snd (readSerialLine w))) \<and>
         (readSerialLine w = (Some line, w') \<longrightarrow>
            strcpy line \<noteq> [] \<and> buffer w' = line \<and> pos w' = 0) \<and>
         (rx w = [] \<longrightarrow> readSerialLine w = (None, w)) \<and>
         (rx w = PICO_ERROR_TIMEOUT # cs \<longrightarrow> readSerialLine w = (None, w\<lparr>rx := cs\<rparr>)) \<and>
         (rx w = c # cs \<and> (c = 10 \<or> c = 13) \<and> 0 < pos w \<longrightarrow>
            readSerialLine w =
              (Some ((buffer w)[pos w := CHR 0x00]),
               w\<lparr>rx := cs, buffer := (buffer w)[pos w := CHR 0x00], pos := 0\<rparr>) \<and>
            strcpy ((buffer w)[pos w := CHR 0x00]) = take (pos w) (buffer w) \<and>
            take (pos w) (buffer w) \<noteq> []) \<and>
         (rx w = c # cs \<and> (c = 10 \<or> c = 13) \<and> pos w = 0 \<longrightarrow>
            readSerialLine w = readSerialLine (w\<lparr>rx := cs\<rparr>)) \<and>
         (rx w = c # cs \<and> printable c \<and> pos w < 255 \<longrightarrow>
            readSerialLine w =
              readSerialLine (w\<lparr>rx := cs, buffer := (buffer w)[pos w := char_of c],
                                pos := pos w + 1\<rparr>) \<and>
            take (pos w + 1) ((buffer w)[pos w := char_of c]) =
              take (pos w) (buffer w) @ [char_of c]) \<and>
         (rx w = c # cs \<and> c \<noteq> 10 \<and> c \<noteq> 13 \<and> c \<noteq> PICO_ERROR_TIMEOUT \<and>
          (\<not> printable c \<or> pos w = 255) \<longrightarrow>
            readSerialLine w = readSerialLine (w\<lparr>rx := cs\<rparr>)) \<and>
         (rx w = xs @ c # rest \<and> (\<forall>x \<in> set xs. printable x) \<and> (c = 10 \<or> c = 13) \<and>
          0 < pos w + length xs \<longrightarrow>
            (\<exists>l. readSerialLine w = (Some l, w\<lparr>rx := rest, buffer := l, pos := 0\<rparr>) \<and>
                 strcpy l = take 255 (take (pos w) (buffer w) @ map char_of xs))) \<and>
         (rx w = xs \<and> (\<forall>x \<in> set xs. printable x) \<longrightarrow>
            (\<exists>buf'. readSerialLine w =
                      (None, w\<lparr>rx := [], buffer := buf', pos := min 255 (pos w + length xs)\<rparr>) \<and>
                    take (min 255 (pos w + length xs)) buf' =
                      take 255 (take (pos w) (buffer w) @ map char_of xs)))"
proof -
  from assms have l: "length (buffer w) = 256" and p: "pos w \<le> 255"
    and z: "CHR 0x00 \<notin> set (take (pos w) (buffer w))"
    by (simp_all add: asm_ok_def)
  have A: "asm_ok (buffer (snd (readSerialLine w)), pos (snd (readSerialLine w)))"
    using assms by (rule readSerialLine_ok)
  have B: "readSerialLine w = (Some line, w') \<longrightarrow>
            strcpy line \<noteq> [] \<and> buffer w' = line \<and> pos w' = 0"
    using readSerialLine_some[OF assms] by blast
  have C: "rx w = [] \<longrightarrow> readSerialLine w = (None, w)"
    using readSerialLine_empty by blast
  have D: "rx w = PICO_ERROR_TIMEOUT # cs \<longrightarrow> readSerialLine w = (None, w\<lparr>rx := cs\<rparr>)"
    using readSerialLine_timeout by blast
  have E1: "rx w = c # cs \<and> (c = 10 \<or> c = 13) \<and> 0 < pos w \<longrightarrow>
            readSerialLine w =
              (Some ((buffer w)[pos w := CHR 0x00]),
               w\<lparr>rx := cs, buffer := (buffer w)[pos w := CHR 0x00], pos := 0\<rparr>) \<and>
            strcpy ((buffer w)[pos w := CHR 0x00]) = take (pos w) (buffer w) \<and>
            take (pos w) (buffer w) \<noteq> []"
  proof (intro impI, elim conjE)
    assume r: "rx w = c # cs" and c: "c = 10 \<or> c = 13" and p0: "0 < pos w"
    have nt: "c \<noteq> PICO_ERROR_TIMEOUT" using c by (auto simp: PICO_ERROR_TIMEOUT_def)
    have s: "strcpy ((buffer w)[pos w := CHR 0x00]) = take (pos w) (buffer w)"
      using l p z by (intro strcpy_terminated) simp_all
    have n: "take (pos w) (buffer w) \<noteq> []" using p0 l by auto
    show "readSerialLine w =
              (Some ((buffer w)[pos w := CHR 0x00]),
               w\<lparr>rx := cs, buffer := (buffer w)[pos w := CHR 0x00], pos := 0\<rparr>) \<and>
            strcpy ((buffer w)[pos w := CHR 0x00]) = take (pos w) (buffer w) \<and>
            take (pos w) (buffer w) \<noteq> []"
      using readSerialLine_emit[OF r nt on_byte_newline[OF c p0]] s n by simp
  qed
  have E2: "rx w = c # cs \<and> (c = 10 \<or> c = 13) \<and> pos w = 0 \<longrightarrow>
            readSerialLine w = readSerialLine (w\<lparr>rx := cs\<rparr>)"
  proof (intro impI, elim conjE)
    assume r: "rx w = c # cs" and c: "c = 10 \<or> c = 13" and p0: "pos w = 0"
    have nt: "c \<noteq> PICO_ERROR_TIMEOUT" using c by (auto simp: PICO_ERROR_TIMEOUT_def)
    have ob: "on_byte c (buffer w, pos w) = (None, buffer w, pos w)"
      unfolding p0 using c by (rule on_byte_newline_empty)
    show "readSerialLine w = readSerialLine (w\<lparr>rx := cs\<rparr>)"
      using readSerialLine_continue[OF r nt ob] by simp
  qed
  have E3: "rx w = c # cs \<and> printable c \<and> pos w < 255 \<longrightarrow>
            readSerialLine w =
              readSerialLine (w\<lparr>rx := cs, buffer := (buffer w)[pos w := char_of c],
                                pos := pos w + 1\<rparr>) \<and>
            take (pos w + 1) ((buffer w)[pos w := char_of c]) =
              take (pos w) (buffer w) @ [char_of c]"
  proof (intro impI, elim conjE)
    assume r: "rx w = c # cs" and pc: "printable c" and p2: "pos w < 255"
    have nt: "c \<noteq> PICO_ERROR_TIMEOUT"
      using pc by (auto simp: PICO_ERROR_TIMEOUT_def printable_def)
    have tk: "take (pos w + 1) ((buffer w)[pos w := char_of c]) =
              take (pos w) (buffer w) @ [char_of c]"
      using take_Suc_update[of "pos w" "buffer w"] l p2 by simp
    show "readSerialLine w =
              readSerialLine (w\<lparr>rx := cs, buffer := (buffer w)[pos w := char_of c],
                                pos := pos w + 1\<rparr>) \<and>
            take (pos w + 1) ((buffer w)[pos w := char_of c]) =
              take (pos w) (buffer w) @ [char_of c]"
      using readSerialLine_continue[OF r nt on_byte_append[OF pc p2]] tk by simp
  qed
  have E4: "rx w = c # cs \<and> c \<noteq> 10 \<and> c \<noteq> 13 \<and> c \<noteq> PICO_ERROR_TIMEOUT \<and>
          (\<not> printable c \<or> pos w = 255) \<longrightarrow>
            readSerialLine w = readSerialLine (w\<lparr>rx := cs\<rparr>)"
  proof (intro impI, elim conjE)
    assume r: "rx w = c # cs" and c: "c \<noteq> 10" "c \<noteq> 13" and nt: "c \<noteq> PICO_ERROR_TIMEOUT"
      and d: "\<not> printable c \<or> pos w = 255"
    have ob: "on_byte c (buffer w, pos w) = (None, buffer w, pos w)"
      using c d by (intro on_byte_discard) auto
    show "readSerialLine w = readSerialLine (w\<lparr>rx := cs\<rparr>)"
      using readSerialLine_continue[OF r nt ob] by simp
  qed
  have F: "rx w = xs @ c # rest \<and> (\<forall>x \<in> set xs. printable x) \<and> (c = 10 \<or> c = 13) \<and>
          0 < pos w + length xs \<longrightarrow>
            (\<exists>l. readSerialLine w = (Some l, w\<lparr>rx := rest, buffer := l, pos := 0\<rparr>) \<and>
                 strcpy l = take 255 (take (pos w) (buffer w) @ map char_of xs))"
  proof (intro impI, elim conjE)
    assume r: "rx w = xs @ c # rest" and px: "\<forall>x \<in> set xs. printable x"
      and c: "c = 10 \<or> c = 13" and n: "0 < pos w + length xs"
    from read_loop_line[OF assms px c n, of rest] obtain l where
      "read_loop (xs @ c # rest) (buffer w, pos w) = (Some l, rest, l, 0)"
      "strcpy l = take 255 (take (pos w) (buffer w) @ map char_of xs)" by blast
    then show "\<exists>l. readSerialLine w = (Some l, w\<lparr>rx := rest, buffer := l, pos := 0\<rparr>) \<and>
                 strcpy l = take 255 (take (pos w) (buffer w) @ map char_of xs)"
      by (simp add: readSerialLine_def r)
  qed
  have G: "rx w = xs \<and> (\<forall>x \<in> set xs. printable x) \<longrightarrow>
            (\<exists>buf'. readSerialLine w =
                      (None, w\<lparr>rx := [], buffer := buf', pos := min 255 (pos w + length xs)\<rparr>) \<and>
                    take (min 255 (pos w + length xs)) buf' =
                      take 255 (take (pos w) (buffer w) @ map char_of xs))"
  proof (intro impI, elim conjE)
    assume r: "rx w = xs" and px: "\<forall>x \<in> set xs. printable x"
    from read_loop_partial[OF assms px] obtain buf' where
      rl: "read_loop xs (buffer w, pos w) = (None, [], buf', min 255 (pos w + length xs))"
      and tk: "take (min 255 (pos w + length xs)) buf' =
         take 255 (take (pos w) (buffer w) @ map char_of xs)" by blast
    have "readSerialLine w =
            (None, w\<lparr>rx := [], buffer := buf', pos := min 255 (pos w + length xs)\<rparr>)"
      by (simp add: readSerialLine_def r rl)
    with tk show "\<exists>buf'. readSerialLine w =
                      (None, w\<lparr>rx := [], buffer := buf', pos := min 255 (pos w + length xs)\<rparr>) \<and>
                    take (min 255 (pos w + length xs)) buf' =
                      take 255 (take (pos w) (buffer w) @ map char_of xs)"
      by blast
  qed
  show ?thesis using A B C D E1 E2 E3 E4 F G by (intro conjI)
qed


theorem line_assembler_step_witness:
  "(\<exists>line w1 w2.
      readSerialLine (power_on [72, 105] [] 0) = (None, w1) \<and> pos w1 = 2 \<and> rx w1 = [] \<and>
      readSerialLine (w1\<lparr>rx := [13, 10]\<rparr>) = (Some line, w2) \<and> strcpy line = ''Hi'' \<and>
      pos w2 = 0 \<and> rx w2 = [10] \<and>
      readSerialLine w2 = (None, w2\<lparr>rx := []\<rparr>)) \<and>
   (\<exists>line w'.
      readSerialLine (power_on (replicate 300 65 @ [10]) [] 0) = (Some line, w') \<and>
      strcpy line = replicate 255 (CHR ''A'') \<and> pos w' = 0 \<and> rx w' = [])"
proof -
  let ?w0 = "power_on [72, 105] [] 0"
  have hi: "map char_of [72, 105 :: int] = ''Hi''" by code_simp
  have ca: "char_of (65 :: int) = CHR ''A''" by code_simp
  have ok0: "asm_ok (buffer ?w0, pos ?w0)" by (simp add: power_on_def asm_ok_def)
  have f0: "rx ?w0 = [72, 105]" "pos ?w0 = 0" by (simp_all add: power_on_def)
  have pr: "\<forall>x \<in> set [72, 105 :: int]. printable x" by (simp add: printable_def)
  note th0 = line_assembler_step[OF ok0, where xs = "[72, 105]"]
  note g0 = th0[THEN conjunct2, THEN conjunct2, THEN conjunct2, THEN conjunct2, THEN conjunct2, THEN conjunct2, THEN conjunct2, THEN conjunct2, THEN conjunct2]
  have "\<exists>buf'. readSerialLine ?w0 =
            (None, ?w0\<lparr>rx := [], buffer := buf', pos := min 255 (pos ?w0 + length [72, 105 :: int])\<rparr>) \<and>
          take (min 255 (pos ?w0 + length [72, 105 :: int])) buf' =
            take 255 (take (pos ?w0) (buffer ?w0) @ map char_of [72, 105 :: int])"
    using g0 f0(1) pr by blast
  then obtain buf1 where
    a0: "readSerialLine ?w0 =
            (None, ?w0\<lparr>rx := [], buffer := buf1, pos := min 255 (pos ?w0 + length [72, 105 :: int])\<rparr>)"
    and b0: "take (min 255 (pos ?w0 + length [72, 105 :: int])) buf1 =
            take 255 (take (pos ?w0) (buffer ?w0) @ map char_of [72, 105 :: int])"
    by blast
  have m0: "min 255 (pos ?w0 + length [72, 105 :: int]) = 2" by (simp add: f0(2))
  have r0: "readSerialLine ?w0 = (None, ?w0\<lparr>rx := [], buffer := buf1, pos := 2\<rparr>)"
    using a0 unfolding m0 .
  have t0: "take 2 buf1 = ''Hi''"
    using b0 unfolding m0 hi by (simp add: f0(2))
  define w1 where "w1 = ?w0\<lparr>rx := [], buffer := buf1, pos := 2\<rparr>"
  have ok1: "asm_ok (buffer w1, pos w1)" using th0[THEN conjunct1] by (simp add: r0 w1_def)
  define v where "v = w1\<lparr>rx := [13, 10]\<rparr>"
  have okv: "asm_ok (buffer v, pos v)" using ok1 by (simp add: v_def)
  have fv: "rx v = 13 # [10]" "pos v = 2" "buffer v = buf1" by (simp_all add: v_def w1_def)
  note th1 = line_assembler_step[OF okv, where c = 13 and cs = "[10]"]
  define w2 where "w2 = v\<lparr>rx := [10], buffer := buf1[2 := CHR 0x00], pos := 0\<rparr>"
  have r1: "readSerialLine v = (Some (buf1[2 := CHR 0x00]), w2)"
    and s1: "strcpy (buf1[2 := CHR 0x00]) = ''Hi''"
    using th1[THEN conjunct2, THEN conjunct2, THEN conjunct2, THEN conjunct2, THEN conjunct1] fv t0 by (simp_all add: w2_def)
  have ok2: "asm_ok (buffer w2, pos w2)" using th1[THEN conjunct1] by (simp add: r1)
  have f2: "rx w2 = 10 # []" "pos w2 = 0" by (simp_all add: w2_def)
  note th2 = line_assembler_step[OF ok2, where c = 10 and cs = "[]"]
  have "readSerialLine w2 = readSerialLine (w2\<lparr>rx := []\<rparr>)" using th2[THEN conjunct2, THEN conjunct2, THEN conjunct2, THEN conjunct2, THEN conjunct2, THEN conjunct1] f2 by simp
  also have "\<dots> = (None, w2\<lparr>rx := []\<rparr>)" by (rule readSerialLine_empty) simp
  finally have r2: "readSerialLine w2 = (None, w2\<lparr>rx := []\<rparr>)" .
  have first: "\<exists>line w1 w2.
      readSerialLine ?w0 = (None, w1) \<and> pos w1 = 2 \<and> rx w1 = [] \<and>
      readSerialLine (w1\<lparr>rx := [13, 10]\<rparr>) = (Some line, w2) \<and> strcpy line = ''Hi'' \<and>
      pos w2 = 0 \<and> rx w2 = [10] \<and>
      readSerialLine w2 = (None, w2\<lparr>rx := []\<rparr>)"
  proof (intro exI conjI)
    show "readSerialLine ?w0 = (None, w1)" by (simp add: r0 w1_def)
    show "pos w1 = 2" "rx w1 = []" by (simp_all add: w1_def)
    show "readSerialLine (w1\<lparr>rx := [13, 10]\<rparr>) = (Some (buf1[2 := CHR 0x00]), w2)"
      using r1 by (simp add: v_def)
    show "strcpy (buf1[2 := CHR 0x00]) = ''Hi''" by (rule s1)
    show "pos w2 = 0" "rx w2 = [10]" by (simp_all add: w2_def)
    show "readSerialLine w2 = (None, w2\<lparr>rx := []\<rparr>)" by (rule r2)
  qed
  let ?wT = "power_on (replicate 300 65 @ [10]) [] 0"
  have okT: "asm_ok (buffer ?wT, pos ?wT)" by (simp add: power_on_def asm_ok_def)
  have fT: "rx ?wT = replicate 300 65 @ 10 # []" "pos ?wT = 0" by (simp_all add: power_on_def)
  have prT: "\<forall>x \<in> set (replicate 300 (65 :: int)). printable x" by (simp add: printable_def)
  note thT = line_assembler_step[OF okT, where xs = "replicate 300 65" and c = 10 and rest = "[]"]
  note fT' = thT[THEN conjunct2, THEN conjunct2, THEN conjunct2, THEN conjunct2, THEN conjunct2, THEN conjunct2, THEN conjunct2, THEN conjunct2, THEN conjunct1]
  have "\<exists>l. readSerialLine ?wT = (Some l, ?wT\<lparr>rx := [], buffer := l, pos := 0\<rparr>) \<and>
          strcpy l = take 255 (take (pos ?wT) (buffer ?wT) @ map char_of (replicate 300 (65 :: int)))"
    using fT' fT prT by simp
  then obtain l where
    rT: "readSerialLine ?wT = (Some l, ?wT\<lparr>rx := [], buffer := l, pos := 0\<rparr>)"
    and bT: "strcpy l = take 255 (take (pos ?wT) (buffer ?wT) @ map char_of (replicate 300 (65 :: int)))"
    by blast
  have sT: "strcpy l = replicate 255 (CHR ''A'')"
    using bT by (simp add: fT(2) ca)
  have second: "\<exists>line w'.
      readSerialLine ?wT = (Some line, w') \<and>
      strcpy line = replicate 255 (CHR ''A'') \<and> pos w' = 0 \<and> rx w' = []"
    using rT sT by auto
  show ?thesis using first second by blast
qed

text \<open>
  C6 (amended). In the build with LEDs the command LED is lit on every completed line,
  whatever the line contains, and its switch-off time is set to the clock at that moment
  plus 150 ms; a line arriving while it is lit sets the time anew. A tick switches it off
  (and clears the LED) when the clock is strictly later than the switch-off time; at the
  switch-off time itself or earlier, and when the LED is not lit, the tick changes nothing.
\<close>
theorem command_led_timing:
  "command_led_active (on_line WithLeds line w) \<and>
   command_led_off_time (on_line WithLeds line w) = clock w + 150000 \<and>
   (\<exists>evs. trace (on_line WithLeds line w) = trace w @ LedRGB COMMAND_LED 0 0 128 # evs) \<and>
   (command_led_active w \<and> command_led_off_time w < clock w \<longrightarrow>
      led_timeout w = (emit (LedRGB COMMAND_LED 0 0 0) w)\<lparr>command_led_active := False\<rparr>) \<and>
   (command_led_active w \<and> clock w \<le> command_led_off_time w \<longrightarrow> led_timeout w = w) \<and>
   (\<not> command_led_active w \<longrightarrow> led_timeout w = w)"
proof -
  have 1: "command_led_active (on_line WithLeds line w)" by (simp add: on_line_def Let_def)
  have 2: "command_led_off_time (on_line WithLeds line w) = clock w + 150000"
    by (simp add: on_line_def Let_def make_timeout_time_ms_def get_absolute_time_def)
  obtain evs where "trace (fold perform (spec_parse (strcpy line)) (flashCommandLED w)) =
      trace (flashCommandLED w) @ evs"
    using trace_fold_perform by blast
  then have 3: "\<exists>evs. trace (on_line WithLeds line w) = trace w @ LedRGB COMMAND_LED 0 0 128 # evs"
    by (simp add: on_line_def Let_def handleCommands_fold)
  have 4: "command_led_active w \<and> command_led_off_time w < clock w \<longrightarrow>
      led_timeout w = (emit (LedRGB COMMAND_LED 0 0 0) w)\<lparr>command_led_active := False\<rparr>"
    by (simp add: led_timeout_def absolute_time_diff_us_def get_absolute_time_def)
  have 5: "command_led_active w \<and> clock w \<le> command_led_off_time w \<longrightarrow> led_timeout w = w"
    by (simp add: led_timeout_def absolute_time_diff_us_def get_absolute_time_def)
  have 6: "\<not> command_led_active w \<longrightarrow> led_timeout w = w"
    by (simp add: led_timeout_def)
  show ?thesis using 1 2 3 4 5 6 by blast
qed

theorem command_led_timing_witness:
  "command_led_active (on_line WithLeds ''5,999'' (power_on [] [] 0)) \<and>
   command_led_off_time (on_line WithLeds ''5,999'' (power_on [] [] 0)) = 150000 \<and>
   command_led_active (led_timeout ((on_line WithLeds ''5,999'' (power_on [] [] 0))\<lparr>clock := 150000\<rparr>)) \<and>
   \<not> command_led_active (led_timeout ((on_line WithLeds ''5,999'' (power_on [] [] 0))\<lparr>clock := 150001\<rparr>))"
proof -
  let ?w = "on_line WithLeds ''5,999'' (power_on [] [] 0)"
  note a = command_led_timing[of "''5,999''" "power_on [] [] 0"]
  have 1: "command_led_active ?w" and 2: "command_led_off_time ?w = 150000"
    using a by (simp_all add: power_on_def)
  note b = command_led_timing[of "''5,999''" "?w\<lparr>clock := 150000\<rparr>"]
  note c = command_led_timing[of "''5,999''" "?w\<lparr>clock := 150001\<rparr>"]
  have 3: "command_led_active (led_timeout (?w\<lparr>clock := 150000\<rparr>))"
    using b 1 2 by simp
  have 4: "\<not> command_led_active (led_timeout (?w\<lparr>clock := 150001\<rparr>))"
    using c 1 2 by (simp add: emit_def)
  show ?thesis using 1 2 3 4 by simp
qed

theorem command_led_counterexample:
  "command_led_off_time (on_line WithLeds ''5,999'' (power_on [] [] 0)) = 150000 \<and>
   get_absolute_time ((on_line WithLeds ''5,999'' (power_on [] [] 0))\<lparr>clock := 150000\<rparr>) = 150000 \<and>
   command_led_active (led_timeout ((on_line WithLeds ''5,999'' (power_on [] [] 0))\<lparr>clock := 150000\<rparr>))"
  by (simp add: on_line_5_999 led_timeout_def absolute_time_diff_us_def get_absolute_time_def
      power_on_def emit_def flashCommandLED_def)


text \<open>
  C7. One pass of the main loop drains \<open>i \<le> 100\<close> lines: when \<open>i < 100\<close> exactly
  \<open>i\<close> lines were read and handled and the next read returned no line; when
  \<open>i = 100\<close> exactly 100 were read and handled. The pass ends with \<open>sleep_ms(1)\<close> if
  and only if \<open>i = 0\<close>. With 100 or more complete lines pending, the drain loop takes
  exactly 100 of them and leaves the others pending, so the button poll and the LED tick
  come round again after 100 lines.
\<close>
theorem drain_at_most_100_lines:
  "(\<exists>i had_input w2.
      drain b 0 False (if b = WithLeds then led_timeout (poll_button w) else w) = (i, had_input, w2) \<and>
      i \<le> 100 \<and> (had_input \<longleftrightarrow> 0 < i) \<and>
      (i < 100 \<longrightarrow>
         (\<exists>u. take_lines b i (if b = WithLeds then led_timeout (poll_button w) else w) = Some u \<and>
              readSerialLine u = (None, w2))) \<and>
      (i = 100 \<longrightarrow>
         take_lines b 100 (if b = WithLeds then led_timeout (poll_button w) else w) = Some w2) \<and>
      main_iteration b w = (if i = 0 then sleep_ms 1 w2 else w2)) \<and>
   (rx u = concat (map (\<lambda>l. l @ [10]) ls) @ rest \<and>
    (\<forall>l \<in> set ls. l \<noteq> [] \<and> (\<forall>x \<in> set l. printable x)) \<and>
    100 \<le> length ls \<and> pos u = 0 \<and> length (buffer u) = 256 \<longrightarrow>
      (\<exists>u'. drain b 0 False u = (100, True, u') \<and>
            rx u' = concat (map (\<lambda>l. l @ [10]) (drop 100 ls)) @ rest))"
proof -
  define w1 where "w1 = (if b = WithLeds then led_timeout (poll_button w) else w)"
  obtain i had w2 where d: "drain b 0 False w1 = (i, had, w2)" by (cases "drain b 0 False w1")
  note c = drain_count[OF d]
  have h: "had \<longleftrightarrow> 0 < i" using c by simp
  have m: "main_iteration b w = (if i = 0 then sleep_ms 1 w2 else w2)"
    using d h by (simp add: main_iteration_def Let_def w1_def)
  have "\<exists>i had_input w2.
      drain b 0 False w1 = (i, had_input, w2) \<and>
      i \<le> 100 \<and> (had_input \<longleftrightarrow> 0 < i) \<and>
      (i < 100 \<longrightarrow> (\<exists>u. take_lines b i w1 = Some u \<and> readSerialLine u = (None, w2))) \<and>
      (i = 100 \<longrightarrow> take_lines b 100 w1 = Some w2) \<and>
      main_iteration b w = (if i = 0 then sleep_ms 1 w2 else w2)"
    using d c h m by auto
  then show ?thesis unfolding w1_def using drain_burst[of u ls rest b] by blast
qed


theorem drain_at_most_100_lines_witness:
  "main_iteration Plain (power_on [] [] 0) = sleep_ms 1 (power_on [] [] 0) \<and>
   (\<exists>u'. drain Plain 0 False (power_on (concat (map (\<lambda>l. l @ [10]) (replicate 101 [65]))) [] 0) =
            (100, True, u') \<and> rx u' = [65, 10])"
proof -
  let ?w = "power_on [] [] 0"
  let ?u = "power_on (concat (map (\<lambda>l. l @ [10]) (replicate 101 [65]))) [] 0"
  note th = drain_at_most_100_lines[of Plain ?w ?u "replicate 101 [65]" "[]"]
  have d: "drain Plain 0 False ?w = (0, False, ?w)"
    by (subst drain.simps) (simp add: readSerialLine_empty power_on_def)
  have 1: "main_iteration Plain ?w = sleep_ms 1 ?w" using th d by auto
  have h: "rx ?u = concat (map (\<lambda>l. l @ [10]) (replicate 101 [65])) @ [] \<and>
    (\<forall>l \<in> set (replicate 101 [65]). l \<noteq> [] \<and> (\<forall>x \<in> set l. printable x)) \<and>
    100 \<le> length (replicate 101 [65::int]) \<and> pos ?u = 0 \<and> length (buffer ?u) = 256"
    by (simp add: power_on_def printable_def)
  have dr: "drop 100 (replicate 101 [65::int]) = [[65]]" by simp
  have 2: "\<exists>u'. drain Plain 0 False ?u = (100, True, u') \<and> rx u' = [65, 10]"
    using th h unfolding dr by simp
  show ?thesis using 1 2 by blast
qed

text \<open>
  C8 (amended). After initialisation every one of the 18 entries of \<open>currentPositions\<close>
  is 0, and the library calls made are exactly \<open>setup_calls\<close>: every servo is created,
  initialised and calibrated with first value \<open>MIN_ANGLE\<close> and last value \<open>MAX_ANGLE\<close>
  once, and then, after all are calibrated, enabled once. Initialisation makes no pulse
  call: the neutral position is left to the library's \<open>enable\<close>.
\<close>
theorem setup_leaves_channels_neutral:
  assumes "length (currentPositions w) = NUM_SERVOS"
  shows "currentPositions (setup_fn b w) = replicate NUM_SERVOS 0 \<and>
         trace (setup_fn b w) = trace w @ setup_calls b \<and>
         (\<forall>s < NUM_SERVOS.
            count_list (setup_calls b) (CalFirst s (of_int MIN_ANGLE)) = 1 \<and>
            count_list (setup_calls b) (CalLast s (of_int MAX_ANGLE)) = 1 \<and>
            count_list (setup_calls b) (ServoEnable s) = 1) \<and>
         (\<forall>s p. count_list (setup_calls b) (ServoPulse s p) = 0)"
  using setup_fn_positions[OF assms] setup_fn_trace setup_calls_count
    count_list_absent[OF setup_calls_no_pulse]
  by (simp add: MIN_ANGLE_def MAX_ANGLE_def)

theorem setup_leaves_channels_neutral_witness:
  "length (currentPositions (power_on [] [] 0)) = NUM_SERVOS \<and>
   currentPositions (setup_fn Plain (power_on [] [] 0)) = replicate NUM_SERVOS 0 \<and>
   trace (setup_fn Plain (power_on [] [] 0)) = setup_calls Plain \<and>
   count_list (setup_calls Plain) (ServoEnable 17) = 1 \<and>
   count_list (setup_calls Plain) (ServoPulse 17 1500) = 0"
proof -
  have l: "length (currentPositions (power_on [] [] 0)) = NUM_SERVOS" by (simp add: power_on_def)
  have t: "trace (power_on [] [] 0) = []" by (simp add: power_on_def)
  have s: "(17::nat) < NUM_SERVOS" by (simp add: NUM_SERVOS_def)
  note th = setup_leaves_channels_neutral[OF l, of Plain]
  have e: "count_list (setup_calls Plain) (ServoEnable 17) = 1" using th s by blast
  show ?thesis using th l t e by simp
qed

theorem setup_pulse_counterexample:
  "count_list (trace (setup_fn Plain (power_on [] [] 0))) (ServoPulse 0 1500) = 0 \<and>
   count_list (trace (setup_fn WithLeds (power_on [] [] 0))) (ServoPulse 0 1500) = 0"
  by (simp add: setup_fn_trace power_on_def count_list_absent[OF setup_calls_no_pulse])


text \<open>
  C9 (amended). In a pass of the main loop in which the button reads asserted, the
  diagnostic is printed and the blocking animation runs first: it takes 800 ms, reads no
  byte and changes neither the line buffer nor \<open>currentPositions\<close>. The same pass then
  goes on with the LED tick and the drain loop as in any other pass.
\<close>
theorem button_animation_then_drain:
  assumes "button w = True # presses"
  shows "poll_button w = ledWelcomeAnimation (emit (Printf ButtonPressed) (w\<lparr>button := presses\<rparr>)) \<and>
         rx (poll_button w) = rx w \<and> buffer (poll_button w) = buffer w \<and>
         pos (poll_button w) = pos w \<and> currentPositions (poll_button w) = currentPositions w \<and>
         clock (poll_button w) = clock w + 800000 \<and>
         main_iteration WithLeds w =
           (case drain WithLeds 0 False (led_timeout (poll_button w)) of
              (i, had_input, w2) \<Rightarrow> if \<not> had_input then sleep_ms 1 w2 else w2)"
  by (simp add: poll_button_pressed[OF assms] main_iteration_def)

theorem button_animation_then_drain_witness:
  "button (power_on [48, 44, 49, 48, 10] [True] 0) = True # [] \<and>
   rx (poll_button (power_on [48, 44, 49, 48, 10] [True] 0)) = [48, 44, 49, 48, 10] \<and>
   clock (poll_button (power_on [48, 44, 49, 48, 10] [True] 0)) = 800000"
proof -
  have b: "button (power_on [48, 44, 49, 48, 10] [True] 0) = True # []" by (simp add: power_on_def)
  show ?thesis using button_animation_then_drain[OF b] b by (simp add: power_on_def)
qed

theorem button_drain_counterexample:
  "button (power_on [48, 44, 49, 48, 10] [True] 0) = [True] \<and>
   currentPositions (power_on [48, 44, 49, 48, 10] [True] 0) ! 0 = 0 \<and>
   currentPositions (main_iteration WithLeds (power_on [48, 44, 49, 48, 10] [True] 0)) ! 0 = 10 \<and>
   rx (main_iteration WithLeds (power_on [48, 44, 49, 48, 10] [True] 0)) = []"
proof -
  let ?w0 = "power_on [48, 44, 49, 48, 10] [True] 0"
  define w1 where "w1 = poll_button ?w0"
  have b: "button ?w0 = True # []" by (simp add: power_on_def)
  have f: "rx w1 = [48, 44, 49, 48] @ 10 # []" "pos w1 = 0" "length (buffer w1) = 256"
          "\<not> command_led_active w1" "currentPositions w1 = replicate NUM_SERVOS 0"
    unfolding w1_def poll_button_pressed[OF b] by (simp_all add: power_on_def)
  have lt: "led_timeout w1 = w1" using f(4) by (simp add: led_timeout_def)
  have pr: "\<forall>x \<in> set [48, 44, 49, 48 :: int]. printable x" by (simp add: printable_def)
  have tx: "take 255 (map char_of [48, 44, 49, 48 :: int]) = ''0,10''" by code_simp
  from readSerialLine_line[OF f(1) pr _ _ f(2) f(3)]
  obtain line where rd: "readSerialLine w1 = (Some line, w1\<lparr>rx := [], buffer := line, pos := 0\<rparr>)"
    and sl: "strcpy line = ''0,10''" unfolding tx by auto
  define w2 where "w2 = on_line WithLeds line (w1\<lparr>rx := [], buffer := line, pos := 0\<rparr>)"
  have r2: "rx w2 = []" by (simp add: w2_def)
  have d2: "drain WithLeds (Suc 0) True w2 = (Suc 0, True, w2)"
    by (subst drain.simps) (simp add: readSerialLine_empty[OF r2])
  have d1: "drain WithLeds 0 False w1 = (Suc 0, True, w2)"
    by (subst drain.simps) (simp add: rd w2_def[symmetric] d2)
  have m: "main_iteration WithLeds ?w0 = w2"
    by (simp add: main_iteration_def w1_def[symmetric] lt d1)
  have p: "currentPositions w2 = (replicate NUM_SERVOS 0)[0 := 10]"
    by (simp add: w2_def on_line_positions sl parse_0_10 f(5))
  show ?thesis unfolding m r2 p by (simp add: power_on_def NUM_SERVOS_def)
qed

end
